theory Spec2Isabelle
  imports Main
begin

section \<open>Machine integers of the solver\<close>

text \<open>
  The solver mixes \<^verbatim>\<open>unsigned int\<close> parameters with \<^verbatim>\<open>int\<close> locals.  Unsigned values
  are natural numbers below \<open>2 ^ 32\<close>; the three places where the two kinds meet are written
  out: \<^verbatim>\<open>u - 1\<close> on an unsigned value wraps at zero, an unsigned value assigned to an
  \<^verbatim>\<open>int\<close> is read as two's complement, and an \<^verbatim>\<open>int\<close> compared with an unsigned value
  is first reduced modulo \<open>2 ^ 32\<close>.  Arithmetic on the \<^verbatim>\<open>int\<close> locals themselves is that of
  \<^typ>\<open>int\<close>: signed overflow has no defined result in the source.
\<close>

definition usub1 :: "nat \<Rightarrow> int" where
  \<comment> \<open>the value of \<^verbatim>\<open>u - 1\<close> for an unsigned \<open>u\<close>\<close>
  "usub1 u = (int u - 1) mod 4294967296"

definition to_signed :: "int \<Rightarrow> int" where
  \<comment> \<open>an unsigned value (or a vector size) stored into an \<^verbatim>\<open>int\<close>\<close>
  "to_signed u =
     (let m = u mod 4294967296 in if m < 2147483648 then m else m - 4294967296)"

definition to_unsigned :: "int \<Rightarrow> int" where
  \<comment> \<open>an \<^verbatim>\<open>int\<close> converted to unsigned\<close>
  "to_unsigned x = x mod 4294967296"

section \<open>The frame of \<^verbatim>\<open>nqueens_by_level\<close>\<close>

text \<open>
  The locals of \<^verbatim>\<open>nqueens_by_level\<close> (src/nqueens.cpp, lines 62 to 137).  \<open>index\<close> is the
  memory seen through the pointer \<^verbatim>\<open>index\<close>: cell \<open>k\<close> is \<^verbatim>\<open>index[k]\<close>, and the block
  obtained from \<^verbatim>\<open>new int[max_level]\<close> spans \<open>0 \<le> k < max_level\<close>.  The block is not
  initialised by \<^verbatim>\<open>new\<close>, so all cells start with whatever the heap holds, which is the
  parameter \<open>junk\<close> of the call.  The source reads cells it has never written (see
  \<open>ascend\<close>); such a read returns the heap's content, and \<open>stray\<close> records, in order, every
  index outside the block at which \<^verbatim>\<open>index\<close> is read.  The source does not check its
  writes either: a write outside the block changes the heap there and the run goes on;
  \<open>wild\<close> records, in order, every index outside the block at which \<^verbatim>\<open>index\<close> is written.
  An access to \<^verbatim>\<open>pos\<close> outside the vector ends the run with \<open>Fault\<close>.  \<open>store\<close> is the state
  the callback works on (the static solution store, or the master's process state).
\<close>

record 'c frame =
  pos :: "nat list"
  index :: "int \<Rightarrow> int"
  var_i :: int
  var_j :: int
  var_k :: int
  flag :: int
  var_size :: int
  stop_sign :: int
  store :: 'c
  stray :: "int list"
  wild :: "int list"

datatype 'a res = Fault 'a | Ret 'a

definition in_block :: "nat \<Rightarrow> int \<Rightarrow> bool" where
  "in_block ml k \<longleftrightarrow> 0 \<le> k \<and> k < int ml"

definition note_read :: "nat \<Rightarrow> int \<Rightarrow> 'c frame \<Rightarrow> 'c frame" where
  "note_read ml k s = (if in_block ml k then s else s\<lparr>stray := stray s @ [k]\<rparr>)"

definition note_write :: "nat \<Rightarrow> int \<Rightarrow> 'c frame \<Rightarrow> 'c frame" where
  "note_write ml k s = (if in_block ml k then s else s\<lparr>wild := wild s @ [k]\<rparr>)"

definition wr_index :: "nat \<Rightarrow> int \<Rightarrow> int \<Rightarrow> 'c frame \<Rightarrow> 'c frame" where
  \<comment> \<open>\<^verbatim>\<open>index[k]=v;\<close>\<close>
  "wr_index ml k v s = (note_write ml k s)\<lparr>index := (index s)(k := v)\<rparr>"

definition set_j :: "'c frame \<Rightarrow> 'c frame res" where
  \<comment> \<open>\<^verbatim>\<open>j=pos[i];\<close>\<close>
  "set_j s =
     (if 0 \<le> var_i s \<and> nat (var_i s) < length (pos s)
      then Ret (s\<lparr>var_j := to_signed (int (pos s ! nat (var_i s)))\<rparr>) else Fault s)"

definition restart :: "'c frame \<Rightarrow> 'c frame res" where
  \<comment> \<open>\<^verbatim>\<open>i=0; j=pos[i];\<close>\<close>
  "restart s = set_j (s\<lparr>var_i := 0\<rparr>)"

definition wr_pos :: "nat \<Rightarrow> 'c frame \<Rightarrow> 'c frame res" where
  \<comment> \<open>\<^verbatim>\<open>pos[k]=index[k];\<close>\<close>
  "wr_pos ml s0 =
     (let s = note_read ml (var_k s0) s0 in
      if 0 \<le> var_k s \<and> nat (var_k s) < length (pos s)
      then Ret (s\<lparr>pos := (pos s)[nat (var_k s) := nat (to_unsigned (index s (var_k s)))]\<rparr>)
      else Fault s)"

subsection \<open>The initialisation loop\<close>

text \<open>
  \<^verbatim>\<open>for(k=start_level;k<=max_level-1;k++){ index[k]=0; }\<close> compares the \<^verbatim>\<open>int\<close> \<open>k\<close> with
  the unsigned \<^verbatim>\<open>max_level-1\<close>.  With \<open>max_level = 0\<close> the bound wraps to \<open>2 ^ 32 - 1\<close>, the
  first iteration already writes outside the (empty) block, and the loop would go on writing
  upwards through the heap until \<open>k\<close> overflows: such a run has no end that the source
  defines, and it is cut short with \<open>Fault\<close> at its first write.
\<close>

function for_init :: "nat \<Rightarrow> 'c frame \<Rightarrow> 'c frame res" where
  "for_init ml s =
     (if to_unsigned (var_k s) \<le> usub1 ml
      then (if in_block ml (var_k s)
            then for_init ml (s\<lparr>index := (index s)(var_k s := 0), var_k := var_k s + 1\<rparr>)
            else Fault s)
      else Ret s)"
  by pat_completeness auto
termination
  by (relation "measure (\<lambda>(ml, s). nat (int ml - var_k s))") (auto simp: in_block_def)

declare for_init.simps [simp del]

subsection \<open>Ascending\<close>

text \<open>
  \<^verbatim>\<open>while((index[k])>=size-1){ k=k-1; if(k<=stop_sign){ flag=1; } }\<close> (lines 87 to 92 and
  110 to 115).  The loop has no exit on \<open>flag\<close>: after \<open>k\<close> has reached \<open>stop_sign\<close> the
  condition is evaluated again, at a cell below \<open>start_level\<close>, and the loop goes on
  descending for as long as the cells it finds there hold at least \<open>size - 1\<close>.
\<close>

partial_function (option) ascend :: "nat \<Rightarrow> 'c frame \<Rightarrow> 'c frame option" where
  "ascend ml s0 =
     (let s = note_read ml (var_k s0) s0 in
      if index s (var_k s) \<ge> var_size s - 1
      then ascend ml (s\<lparr>var_k := var_k s - 1,
                        flag := (if var_k s - 1 \<le> stop_sign s then 1 else flag s)\<rparr>)
      else Some s)"

declare ascend.simps [code]

definition advance :: "nat \<Rightarrow> 'c frame \<Rightarrow> 'c frame res" where
  \<comment> \<open>\<^verbatim>\<open>if(flag!=1){ index[k]=index[k]+1; } i=0; j=pos[i];\<close>\<close>
  "advance ml s =
     (if flag s \<noteq> 1
      then (let s1 = note_read ml (var_k s) s in
            restart (wr_index ml (var_k s1) (index s1 (var_k s1) + 1) s1))
      else restart s)"

definition backtrack :: "nat \<Rightarrow> 'c frame \<Rightarrow> 'c frame res option" where
  "backtrack ml s = map_option (advance ml) (ascend ml s)"

subsection \<open>One iteration of the search loop\<close>

definition attack_test :: "int \<Rightarrow> int \<Rightarrow> int \<Rightarrow> int \<Rightarrow> bool" where
  \<comment> \<open>line 86, with \<open>c\<close> for \<^verbatim>\<open>index[k]\<close>\<close>
  "attack_test i j k c \<longleftrightarrow> ((i = k) \<or> (j = c) \<or> (\<bar>i - k\<bar> = \<bar>j - c\<bar>)) \<and> (i \<le> k - 1)"

definition note_test :: "nat \<Rightarrow> 'c frame \<Rightarrow> 'c frame" where
  \<comment> \<open>the reads of \<^verbatim>\<open>index[k]\<close> that the short-circuit evaluation of line 86 performs\<close>
  "note_test ml s =
     (if var_i s = var_k s then s
      else if var_j s = index s (var_k s) then note_read ml (var_k s) s
      else note_read ml (var_k s) (note_read ml (var_k s) s))"

definition report :: "nat \<Rightarrow> (nat list \<Rightarrow> 'c \<Rightarrow> 'c option) \<Rightarrow> 'c frame \<Rightarrow> 'c frame res option" where
  \<comment> \<open>lines 106 to 109: copy \<^verbatim>\<open>pos[0..max_level-1]\<close> into \<^verbatim>\<open>vec_out\<close> and call back\<close>
  "report ml success_func s =
     (if 1 \<le> ml \<and> ml \<le> length (pos s)
      then map_option (\<lambda>c. Ret (s\<lparr>store := c\<rparr>)) (success_func (take ml (pos s)) (store s))
      else Some (Fault s))"

definition place :: "nat \<Rightarrow> (nat list \<Rightarrow> 'c \<Rightarrow> 'c option) \<Rightarrow> 'c frame \<Rightarrow> 'c frame res option" where
  \<comment> \<open>lines 104 to 127: the column at row \<open>k\<close> is kept\<close>
  "place ml success_func s =
     (case wr_pos ml s of
        Fault e \<Rightarrow> Some (Fault e)
      | Ret s1 \<Rightarrow>
          if to_unsigned (var_k s1) = usub1 ml
          then (case report ml success_func s1 of
                  None \<Rightarrow> None
                | Some (Fault e) \<Rightarrow> Some (Fault e)
                | Some (Ret s2) \<Rightarrow> backtrack ml s2)
          else Some (restart (wr_index ml (var_k s1 + 1) 0 (s1\<lparr>var_k := var_k s1 + 1\<rparr>))))"

definition body :: "nat \<Rightarrow> (nat list \<Rightarrow> 'c \<Rightarrow> 'c option) \<Rightarrow> 'c frame \<Rightarrow> 'c frame res option" where
  \<comment> \<open>lines 86 to 133\<close>
  "body ml success_func s0 =
     (let s = note_test ml s0 in
      if attack_test (var_i s) (var_j s) (var_k s) (index s (var_k s))
      then backtrack ml s
      else if var_i s \<ge> var_k s - 1
      then place ml success_func s
      else Some (set_j (s\<lparr>var_i := var_i s + 1\<rparr>)))"

partial_function (option) search_loop ::
  "nat \<Rightarrow> (nat list \<Rightarrow> 'c \<Rightarrow> 'c option) \<Rightarrow> 'c frame \<Rightarrow> 'c frame res option" where
  "search_loop ml success_func s =
     (if flag s = 0
      then (case body ml success_func s of
              None \<Rightarrow> None
            | Some (Fault e) \<Rightarrow> Some (Fault e)
            | Some (Ret s') \<Rightarrow> search_loop ml success_func s')
      else Some (Ret s))"

declare search_loop.simps [code]

definition resume ::
  "nat \<Rightarrow> (nat list \<Rightarrow> 'c \<Rightarrow> 'c option) \<Rightarrow> 'c frame res option \<Rightarrow> 'c frame res option" where
  \<comment> \<open>the rest of the loop after an iteration with outcome \<open>r\<close>\<close>
  "resume ml success_func r =
     (case r of
        None \<Rightarrow> None
      | Some (Fault e) \<Rightarrow> Some (Fault e)
      | Some (Ret s') \<Rightarrow> search_loop ml success_func s')"

definition nqueens_by_level ::
  "(int \<Rightarrow> int) \<Rightarrow> nat list \<Rightarrow> nat \<Rightarrow> nat \<Rightarrow> (nat list \<Rightarrow> 'c \<Rightarrow> 'c option) \<Rightarrow> 'c
     \<Rightarrow> 'c frame res option" where
  "nqueens_by_level junk ps start_level max_level success_func c =
     (let s0 = \<lparr>pos = ps, index = junk, var_i = 0, var_j = 0, var_k = to_signed (int start_level),
                flag = 0, var_size = to_signed (int (length ps)), stop_sign = 0, store = c,
                stray = [], wild = []\<rparr>
      in case for_init max_level s0 of
           Fault e \<Rightarrow> Some (Fault e)
         | Ret s1 \<Rightarrow>
             (case restart (s1\<lparr>stop_sign := to_signed (usub1 start_level),
                                var_k := to_signed (int start_level)\<rparr>) of
                Fault e \<Rightarrow> Some (Fault e)
              | Ret s2 \<Rightarrow> search_loop max_level success_func s2))"

section \<open>The sequential solver\<close>

text \<open>
  \<^verbatim>\<open>SolutionStore\<close> keeps one flat vector in a function-local static; the callback appends
  the reported solution to it.  \<open>nqueens\<close> returns the vector's content together with the
  store it leaves behind.
\<close>

definition add_solution :: "nat list \<Rightarrow> nat list \<Rightarrow> nat list" where
  "add_solution sol sols = sols @ sol"

definition add_solution_callback :: "nat list \<Rightarrow> nat list \<Rightarrow> nat list option" where
  "add_solution_callback solution sols = Some (add_solution solution sols)"

definition nqueens :: "(int \<Rightarrow> int) \<Rightarrow> nat \<Rightarrow> nat list \<Rightarrow> (nat list \<times> nat list) res option" where
  \<comment> \<open>\<open>Ret (allsolutions, store left behind)\<close>; at a fault \<^verbatim>\<open>allsolutions\<close> does not exist yet\<close>
  "nqueens junk n sols =
     (case nqueens_by_level junk (replicate n 0) 0 n add_solution_callback sols of
        None \<Rightarrow> None
      | Some (Fault s) \<Rightarrow> Some (Fault ([], store s))
      | Some (Ret s) \<Rightarrow> Some (Ret (store s, [])))"

section \<open>The master and its workers\<close>

text \<open>
  src/mpi_nqueens.cpp.  Every process is single-threaded and the workers act only in answer to
  the master: a worker sends its initial readiness once, and after that exactly one report for
  each partial solution it is sent.  The model therefore runs the master's code and lets a
  worker do its work at the moment the master's \<^verbatim>\<open>MPI_Send\<close> hands it the partial solution;
  what remains of the concurrency is the choice the blocking \<^verbatim>\<open>MPI_Recv\<close> from
  \<^verbatim>\<open>MPI_ANY_SOURCE\<close> makes among the workers with a message under way, which is the
  oracle \<open>sched\<close>.  A worker whose enumeration does not return, or ends at a fault,
  never reports.
\<close>

definition initial_ready :: nat where "initial_ready = 1"
definition solution_ready :: nat where "solution_ready = 2"
definition no_solution_ready :: nat where "no_solution_ready = 3"

text \<open>
  What the master does on the communicator, in order; \<open>Ready\<close> and \<open>Work\<close> carry the value of
  the \<^verbatim>\<open>ActiveWorkers\<close> counter once the call that made them has returned.
\<close>

datatype event =
    Bcast_n nat
  | Bcast_k nat
  | Ready nat nat int
  | Work nat "nat list" int
  | Terminate nat

record world =
  solutions :: "nat list"
  active_workers :: int
  inbox :: "nat \<Rightarrow> (nat \<times> nat list) list"
  wpos :: "nat \<Rightarrow> nat list"
  trace :: "event list"
  received :: nat

record env =
  sched :: "nat \<Rightarrow> nat"
  mjunk :: "int \<Rightarrow> int"
  wjunk :: "nat list \<Rightarrow> int \<Rightarrow> int"

text \<open>
  \<open>solutions\<close> is the master's \<^verbatim>\<open>SolutionStore\<close> and \<open>active_workers\<close> its unsigned counter;
  \<open>inbox w\<close> holds the readiness messages of worker \<open>w\<close> that the master has not received yet,
  each with the batch that follows a \<open>solution_ready\<close>; \<open>wpos w\<close> is the \<^verbatim>\<open>pos\<close> buffer of
  worker \<open>w\<close>.  \<open>mjunk\<close> is the heap the master's enumeration finds around its cursor array,
  \<open>wjunk u\<close> the one a worker finds when it works on the partial solution \<open>u\<close>.
\<close>

definition add_worker :: "world \<Rightarrow> world" where
  "add_worker wd = wd\<lparr>active_workers := (active_workers wd + 1) mod 4294967296\<rparr>"

definition remove_worker :: "world \<Rightarrow> world" where
  "remove_worker wd = wd\<lparr>active_workers := (active_workers wd - 1) mod 4294967296\<rparr>"

definition initialize_workers :: "world \<Rightarrow> world" where
  "initialize_workers wd = wd\<lparr>active_workers := 0\<rparr>"

definition worker_solution_func :: "nat list \<Rightarrow> nat list \<Rightarrow> nat list option" where
  "worker_solution_func solution sols = Some (add_solution solution sols)"

definition worker_work :: "env \<Rightarrow> nat \<Rightarrow> nat \<Rightarrow> nat \<Rightarrow> nat list \<Rightarrow> world \<Rightarrow> world" where
  \<comment> \<open>lines 238 to 260 of \<^verbatim>\<open>worker_main\<close>, for the worker \<open>w\<close> that is sent \<open>unit\<close>\<close>
  "worker_work e n k w unit wd =
     (if length unit \<le> n
      then (let ps = unit @ drop (length unit) (wpos wd w);
                wd1 = wd\<lparr>wpos := (wpos wd)(w := ps)\<rparr>
            in case nqueens_by_level (wjunk e unit) ps k n worker_solution_func [] of
                 Some (Ret t) \<Rightarrow>
                   wd1\<lparr>inbox := (inbox wd1)
                     (w := inbox wd1 w @
                        [if store t \<noteq> [] then (solution_ready, store t) else (no_solution_ready, [])])\<rparr>
               | _ \<Rightarrow> wd1)
      else wd)"

definition take_report :: "nat \<Rightarrow> world \<Rightarrow> world" where
  \<comment> \<open>lines 97 to 111, once the readiness of \<open>next_worker\<close> has been received\<close>
  "take_report next_worker wd =
     (let worker_ready = fst (hd (inbox wd next_worker));
          batch = snd (hd (inbox wd next_worker));
          wd1 = wd\<lparr>inbox := (inbox wd)(next_worker := tl (inbox wd next_worker)),
                   received := received wd + 1\<rparr>;
          wd2 = (if worker_ready = solution_ready
                 then remove_worker (wd1\<lparr>solutions := add_solution batch (solutions wd1)\<rparr>)
                 else wd1);
          wd3 = (if worker_ready = no_solution_ready then remove_worker wd2 else wd2)
      in wd3\<lparr>trace := trace wd3 @ [Ready next_worker worker_ready (active_workers wd3)]\<rparr>)"

definition recieve_solution :: "env \<Rightarrow> nat \<Rightarrow> world \<Rightarrow> (nat \<times> world) option" where
  \<comment> \<open>lines 91 to 114; \<open>None\<close>: no message is under way and the receive blocks for ever\<close>
  "recieve_solution e W wd =
     (let pend = filter (\<lambda>w. inbox wd w \<noteq> []) [1..<Suc W] in
      if pend = [] then None
      else
        (let next_worker = pend ! (sched e (received wd) mod length pend)
         in Some (next_worker, take_report next_worker wd)))"

definition distribute_parameters :: "nat \<Rightarrow> nat \<Rightarrow> world \<Rightarrow> world" where
  "distribute_parameters n k wd = wd\<lparr>trace := trace wd @ [Bcast_n n, Bcast_k k]\<rparr>"

definition master_solution_func ::
  "env \<Rightarrow> nat \<Rightarrow> nat \<Rightarrow> nat \<Rightarrow> nat list \<Rightarrow> world \<Rightarrow> world option" where
  \<comment> \<open>lines 137 to 143\<close>
  "master_solution_func e W n k solution wd =
     (case recieve_solution e W wd of
        None \<Rightarrow> None
      | Some (next_worker, wd1) \<Rightarrow>
          (let wd2 = add_worker (worker_work e n k next_worker solution wd1)
           in Some (wd2\<lparr>trace := trace wd2 @ [Work next_worker solution (active_workers wd2)]\<rparr>)))"

partial_function (option) drain :: "env \<Rightarrow> nat \<Rightarrow> world \<Rightarrow> world option" where
  \<comment> \<open>line 173\<close>
  "drain e W wd =
     (if active_workers wd > 0
      then (case recieve_solution e W wd of None \<Rightarrow> None | Some (w, wd') \<Rightarrow> drain e W wd')
      else Some wd)"

declare drain.simps [code]

definition terminate_all :: "nat \<Rightarrow> world \<Rightarrow> world" where
  \<comment> \<open>lines 176 to 180, with \<open>W + 1\<close> processes in the communicator\<close>
  "terminate_all W wd = wd\<lparr>trace := trace wd @ map Terminate [1..<Suc W]\<rparr>"

definition start_world :: "nat \<Rightarrow> nat \<Rightarrow> world" where
  \<comment> \<open>every worker has allocated its zeroed buffer and sent its initial readiness\<close>
  "start_world W n =
     \<lparr>solutions = [], active_workers = 0,
      inbox = (\<lambda>w. if 1 \<le> w \<and> w \<le> W then [(initial_ready, [])] else []),
      wpos = (\<lambda>w. replicate n 0), trace = [], received = 0\<rparr>"

definition master_main :: "env \<Rightarrow> nat \<Rightarrow> nat \<Rightarrow> nat \<Rightarrow> (nat list \<times> world) res option" where
  \<comment> \<open>lines 158 to 186; \<open>Ret (allsolutions, the world left behind)\<close>\<close>
  "master_main e W n k =
     (let wd = initialize_workers (distribute_parameters n k (start_world W n)) in
      case nqueens_by_level (mjunk e) (replicate n 0) 0 k (master_solution_func e W n k) wd of
        None \<Rightarrow> None
      | Some (Fault t) \<Rightarrow> Some (Fault ([], store t))
      | Some (Ret t) \<Rightarrow>
          (case drain e W (store t) of
             None \<Rightarrow> None
           | Some wd1 \<Rightarrow>
               (let wd2 = terminate_all W wd1
                in Some (Ret (solutions wd2, wd2\<lparr>solutions := []\<rparr>)))))"

subsection \<open>The loop of a worker\<close>

text \<open>
  \<^verbatim>\<open>worker_main\<close> (lines 214 to 264) on its own.  The worker posts the receive for the
  termination signal once, into \<^verbatim>\<open>keep_working\<close>, and never tests or waits on that request:
  the only place where it looks at the signal is the test of its \<^verbatim>\<open>while\<close>, which reads
  \<^verbatim>\<open>keep_working\<close> as an ordinary variable.  When the library stores the signal there is
  not decided by the source, so each iteration takes from its environment a \<open>poll\<close>: the value
  the test of the \<^verbatim>\<open>while\<close> reads from \<^verbatim>\<open>keep_working\<close>, and what \<^verbatim>\<open>MPI_Test\<close> finds, which
  is nothing or the partial solution that has arrived in \<^verbatim>\<open>pos\<close>.  \<open>wp_units\<close> keeps the
  partial solutions the worker has worked on, \<open>wp_sent\<close> what it has sent to the master.
  A run over the polls \<open>ps\<close> ends \<open>Exited\<close> when the loop has been left and the request for
  work freed (line 263), \<open>Blocked\<close> inside an enumeration that does not return, \<open>Crashed\<close>
  at a fault, and \<open>Polling\<close>, at the test of the \<^verbatim>\<open>while\<close>, when the polls have all been
  taken.
\<close>

definition terminate :: nat where "terminate = 0"
definition working :: nat where "working = 1"

datatype request = Posted | Freed

record poll =
  keep_working :: nat
  arrived :: "nat list option"

record wproc =
  wp_pos :: "nat list"
  wp_sols :: "nat list"
  wp_sent :: "(nat \<times> nat list) list"
  wp_units :: "nat list list"
  work_request :: request

datatype 'a run = Polling 'a | Blocked | Crashed 'a | Exited 'a

definition worker_unit ::
  "(nat list \<Rightarrow> int \<Rightarrow> int) \<Rightarrow> nat \<Rightarrow> nat \<Rightarrow> nat list \<Rightarrow> wproc \<Rightarrow> wproc res option" where
  \<comment> \<open>lines 241 to 260, \<open>u\<close> having arrived in \<^verbatim>\<open>pos\<close>\<close>
  "worker_unit wj n k u w =
     (if length u \<le> n
      then (let ps = u @ drop (length u) (wp_pos w);
                w1 = w\<lparr>wp_pos := ps\<rparr>
            in case nqueens_by_level (wj u) ps k n worker_solution_func (wp_sols w1) of
                 None \<Rightarrow> None
               | Some (Fault t) \<Rightarrow> Some (Fault (w1\<lparr>wp_sols := store t\<rparr>))
               | Some (Ret t) \<Rightarrow>
                   Some (Ret (w1\<lparr>wp_sols := [],
                     wp_sent := wp_sent w1 @
                       [if store t \<noteq> [] then (solution_ready, store t) else (no_solution_ready, [])],
                     wp_units := wp_units w1 @ [u], work_request := Posted\<rparr>)))
      else Some (Fault w))"

fun worker_loop ::
  "(nat list \<Rightarrow> int \<Rightarrow> int) \<Rightarrow> nat \<Rightarrow> nat \<Rightarrow> poll list \<Rightarrow> wproc \<Rightarrow> wproc run" where
  "worker_loop wj n k [] w = Polling w"
| "worker_loop wj n k (p # ps) w =
     (if keep_working p = working
      then (case arrived p of
              None \<Rightarrow> worker_loop wj n k ps w
            | Some u \<Rightarrow>
                (case worker_unit wj n k u w of
                   None \<Rightarrow> Blocked
                 | Some (Fault e) \<Rightarrow> Crashed e
                 | Some (Ret w') \<Rightarrow> worker_loop wj n k ps w'))
      else Exited (w\<lparr>work_request := Freed\<rparr>))"

definition worker_main ::
  "(nat list \<Rightarrow> int \<Rightarrow> int) \<Rightarrow> nat \<Rightarrow> nat \<Rightarrow> poll list \<Rightarrow> wproc run" where
  \<comment> \<open>\<open>n\<close> and \<open>k\<close> are what the two broadcasts of line 217 deliver\<close>
  "worker_main wj n k ps =
     worker_loop wj n k ps
       \<lparr>wp_pos = replicate n 0, wp_sols = [], wp_sent = [(initial_ready, [])], wp_units = [],
        work_request = Posted\<rparr>"

section \<open>What the search is to find\<close>

text \<open>
  A column \<open>c\<close> may be put below the rows \<open>ps\<close> when no earlier row holds the same column
  or lies on a common diagonal.  \<open>extensions sz d ps\<close> lists, in the order of a depth-first
  search that tries the columns \<open>0, \<dots>, sz - 1\<close> in increasing order, every way of adding
  \<open>d\<close> further rows to \<open>ps\<close>; \<open>from_col\<close> is the part of that list which starts at column
  \<open>c\<close> of the next row.  \<open>emit_all\<close> hands a list of solutions to the callback, one after
  the other.
\<close>

definition safe :: "nat list \<Rightarrow> nat \<Rightarrow> bool" where
  "safe ps c \<longleftrightarrow>
     (\<forall>i \<in> {0..<length ps}.
        ps ! i \<noteq> c \<and> \<bar>int i - int (length ps)\<bar> \<noteq> \<bar>int (ps ! i) - int c\<bar>)"

fun extensions :: "nat \<Rightarrow> nat \<Rightarrow> nat list \<Rightarrow> nat list list" where
  "extensions sz 0 ps = [ps]"
| "extensions sz (Suc d) ps =
     concat (map (\<lambda>c. if safe ps c then extensions sz d (ps @ [c]) else []) [0..<sz])"

definition from_col :: "nat \<Rightarrow> nat \<Rightarrow> nat list \<Rightarrow> nat \<Rightarrow> nat list list" where
  "from_col sz d ps c =
     concat (map (\<lambda>c'. if safe ps c' then extensions sz d (ps @ [c']) else []) [c..<sz])"

fun emit_all :: "(nat list \<Rightarrow> 'c \<Rightarrow> 'c option) \<Rightarrow> nat list list \<Rightarrow> 'c \<Rightarrow> 'c option" where
  "emit_all f [] c = Some c"
| "emit_all f (x # xs) c = (case f x c of None \<Rightarrow> None | Some c' \<Rightarrow> emit_all f xs c')"

text \<open>
  The state of the loop when it is about to examine column \<open>index[k]\<close> of row
  \<open>k = length ps\<close>, below the rows \<open>ps\<close>; \<open>I\<close> is the content of the cursor cells below \<open>k\<close>.
\<close>

definition at_level ::
  "nat \<Rightarrow> nat \<Rightarrow> int \<Rightarrow> int list \<Rightarrow> (int \<Rightarrow> int) \<Rightarrow> nat list \<Rightarrow> 'c frame \<Rightarrow> bool" where
  "at_level ml sz stp lg I ps s \<longleftrightarrow>
     length ps < ml \<and> ml \<le> sz \<and> sz < 2147483648 \<and> (\<forall>x \<in> set ps. x < 2147483648) \<and>
     stp < int (length ps) \<and> var_size s = int sz \<and> length (pos s) = sz \<and>
     take (length ps) (pos s) = ps \<and> var_k s = int (length ps) \<and> stop_sign s = stp \<and>
     stray s = lg \<and> flag s = 0 \<and> (\<forall>l. l < int (length ps) \<longrightarrow> index s l = I l)"

definition cand ::
  "nat \<Rightarrow> nat \<Rightarrow> int \<Rightarrow> int list \<Rightarrow> (int \<Rightarrow> int) \<Rightarrow> nat list \<Rightarrow> nat \<Rightarrow> 'c frame \<Rightarrow> bool" where
  "cand ml sz stp lg I ps c s \<longleftrightarrow>
     at_level ml sz stp lg I ps s \<and> var_i s = 0 \<and> (ps \<noteq> [] \<longrightarrow> var_j s = int (ps ! 0)) \<and>
     index s (int (length ps)) = int c \<and> c < sz"

definition state_of :: "'a res \<Rightarrow> 'a" where
  "state_of r = (case r of Fault t \<Rightarrow> t | Ret t \<Rightarrow> t)"

definition kept_by :: "('c \<Rightarrow> bool) \<Rightarrow> (nat list \<Rightarrow> 'c \<Rightarrow> 'c option) \<Rightarrow> bool" where
  \<comment> \<open>a property of its state that the callback keeps whenever it returns\<close>
  "kept_by P f \<longleftrightarrow> (\<forall>x c c'. P c \<longrightarrow> f x c = Some c' \<longrightarrow> P c')"

text \<open>
  Whether the final descent of \<open>ascend\<close> below \<open>start_level\<close> comes to an end: some cell
  below \<open>start_level\<close> holds less than \<open>size - 1\<close>.
\<close>

definition halts :: "(int \<Rightarrow> int) \<Rightarrow> nat \<Rightarrow> nat \<Rightarrow> bool" where
  "halts junk start_level sz \<longleftrightarrow> (\<exists>m. junk (int start_level - 1 - int m) < int sz - 1)"

text \<open>
  The solutions of the \<open>n\<close>-queens problem as the specification words them: one column below
  \<open>n\<close> for each of the \<open>n\<close> rows, no two rows with the same column, no two on a diagonal.
\<close>

definition placements :: "nat \<Rightarrow> nat list set" where
  "placements n =
     {qs. length qs = n \<and> (\<forall>i<n. qs ! i < n) \<and>
          (\<forall>i<n. \<forall>k<n. i < k \<longrightarrow>
             qs ! i \<noteq> qs ! k \<and> \<bar>int i - int k\<bar> \<noteq> \<bar>int (qs ! i) - int (qs ! k)\<bar>)}"

definition lex_less :: "nat list \<Rightarrow> nat list \<Rightarrow> bool" where
  "lex_less xs ys \<longleftrightarrow> (xs, ys) \<in> lexord {(a, b). a < b}"

definition log_callback :: "nat list \<Rightarrow> nat list list \<Rightarrow> nat list list option" where
  \<comment> \<open>a callback that keeps the sequence of solutions it is called with\<close>
  "log_callback solution seen = Some (seen @ [solution])"

definition clash :: "nat list \<Rightarrow> nat \<Rightarrow> nat \<Rightarrow> bool" where
  "clash ps c i \<longleftrightarrow> ps ! i = c \<or> \<bar>int i - int (length ps)\<bar> = \<bar>int (ps ! i) - int c\<bar>"

text \<open>
  \<open>reaches\<close>: started in \<open>s\<close>, the loop hands the solutions \<open>xs\<close> to the callback and arrives
  at row \<open>length ps\<close> with cursor \<open>c\<close> and this column dealt with, about to backtrack; or the
  callback does not return and neither does the loop.
\<close>

definition reaches ::
  "nat \<Rightarrow> nat \<Rightarrow> int \<Rightarrow> int list \<Rightarrow> (int \<Rightarrow> int) \<Rightarrow> nat list \<Rightarrow> (nat list \<Rightarrow> 'c \<Rightarrow> 'c option)
     \<Rightarrow> 'c frame \<Rightarrow> nat list list \<Rightarrow> nat \<Rightarrow> bool" where
  "reaches ml sz stp lg I ps f s xs c \<longleftrightarrow>
     (case emit_all f xs (store s) of
        None \<Rightarrow> search_loop ml f s = None
      | Some c' \<Rightarrow>
          (\<exists>t. at_level ml sz stp lg I ps t \<and> index t (int (length ps)) = int c \<and> store t = c' \<and>
             search_loop ml f s = resume ml f (backtrack ml t)))"

section \<open>What the protocol is to deliver\<close>

text \<open>
  \<open>chunks n\<close> cuts a flat sequence into the sequences of \<open>n\<close> columns it is made of.  A worker
  is \<open>Fresh\<close> while its initial readiness is under way, \<open>Busy u\<close> from the moment it has been
  sent the partial solution \<open>u\<close> until the master has received its report, and \<open>Idle\<close>
  otherwise; \<open>report_of\<close> is the report a worker sends for \<open>u\<close>.
\<close>

function chunks :: "nat \<Rightarrow> 'a list \<Rightarrow> 'a list list" where
  "chunks n xs = (if n = 0 \<or> xs = [] then [] else take n xs # chunks n (drop n xs))"
  by pat_completeness auto
termination
  by (relation "measure (\<lambda>(n, xs). length xs)") auto

declare chunks.simps [simp del]

datatype wstate = Fresh | Busy "nat list" | Idle

definition batch_of :: "nat \<Rightarrow> nat \<Rightarrow> nat list \<Rightarrow> nat list" where
  "batch_of n k u = concat (extensions n (n - k) u)"

definition report_of :: "nat \<Rightarrow> nat \<Rightarrow> nat list \<Rightarrow> nat \<times> nat list" where
  "report_of n k u =
     (if batch_of n k u \<noteq> [] then (solution_ready, batch_of n k u) else (no_solution_ready, []))"

definition inbox_of :: "nat \<Rightarrow> nat \<Rightarrow> wstate \<Rightarrow> (nat \<times> nat list) list" where
  "inbox_of n k st =
     (case st of Fresh \<Rightarrow> [(initial_ready, [])] | Busy u \<Rightarrow> [report_of n k u] | Idle \<Rightarrow> [])"

definition is_busy :: "wstate \<Rightarrow> bool" where
  "is_busy st = (case st of Busy u \<Rightarrow> True | _ \<Rightarrow> False)"

text \<open>
  The discipline of the liveness count, checked along a trace: the count goes up by one at
  every dispatch, to a worker that is not busy; it goes down by one, and not below zero, at
  every report, with or without solutions, of a busy worker; it stays as it is at an initial
  readiness; and the termination signals are sent at count zero.  \<open>replay\<close> gives the count
  and the busy workers after the trace, or \<open>None\<close> when the trace breaks the discipline.
\<close>

fun replay_event :: "event \<Rightarrow> int \<times> (nat \<Rightarrow> bool) \<Rightarrow> (int \<times> (nat \<Rightarrow> bool)) option" where
  "replay_event (Ready w r c') (c, busy) =
     (if r = initial_ready then (if c' = c \<and> \<not> busy w then Some (c, busy) else None)
      else if (r = solution_ready \<or> r = no_solution_ready) \<and> busy w \<and> c' = c - 1 \<and> 0 \<le> c'
      then Some (c', busy(w := False)) else None)"
| "replay_event (Work w u c') (c, busy) =
     (if \<not> busy w \<and> c' = c + 1 then Some (c', busy(w := True)) else None)"
| "replay_event (Terminate w) (c, busy) = (if c = 0 then Some (c, busy) else None)"
| "replay_event (Bcast_n n) (c, busy) = Some (c, busy)"
| "replay_event (Bcast_k k) (c, busy) = Some (c, busy)"

fun replay :: "event list \<Rightarrow> int \<times> (nat \<Rightarrow> bool) \<Rightarrow> (int \<times> (nat \<Rightarrow> bool)) option" where
  "replay [] st = Some st"
| "replay (ev # tr) st = (case replay_event ev st of None \<Rightarrow> None | Some st' \<Rightarrow> replay tr st')"

fun terms :: "event list \<Rightarrow> nat list" where
  \<comment> \<open>the ranks that have been sent the termination signal, in order\<close>
  "terms [] = []"
| "terms (Terminate w # tr) = w # terms tr"
| "terms (ev # tr) = terms tr"

text \<open>
  The same for any parameters, where a worker's enumeration need not return: a worker is
  \<open>Waiting\<close> while its initial readiness is under way, \<open>Pending m\<close> while its report \<open>m\<close> is,
  \<open>Lost\<close> when it was sent a partial solution and will never report, \<open>Quiet\<close> otherwise.
\<close>

datatype gstate = Waiting | Pending "nat \<times> nat list" | Lost | Quiet

definition gbox :: "gstate \<Rightarrow> (nat \<times> nat list) list" where
  "gbox st = (case st of Waiting \<Rightarrow> [(initial_ready, [])] | Pending m \<Rightarrow> [m] | _ \<Rightarrow> [])"

definition owes :: "gstate \<Rightarrow> bool" where
  "owes st = (case st of Pending m \<Rightarrow> True | Lost \<Rightarrow> True | _ \<Rightarrow> False)"

definition owing :: "nat \<Rightarrow> (nat \<Rightarrow> gstate) \<Rightarrow> nat set" where
  "owing W ws = {w. 1 \<le> w \<and> w \<le> W \<and> owes (ws w)}"

definition ginv :: "nat \<Rightarrow> world \<Rightarrow> (nat \<Rightarrow> gstate) \<Rightarrow> bool" where
  "ginv W wd ws \<longleftrightarrow>
     (\<forall>w. inbox wd w = (if 1 \<le> w \<and> w \<le> W then gbox (ws w) else [])) \<and>
     (\<forall>w m. ws w = Pending m \<longrightarrow> fst m = solution_ready \<or> fst m = no_solution_ready) \<and>
     active_workers wd = int (card (owing W ws)) \<and>
     replay (trace wd) (0, \<lambda>_. False) = Some (active_workers wd, \<lambda>w. w \<in> owing W ws) \<and>
     terms (trace wd) = []"

definition disciplined :: "nat \<Rightarrow> world \<Rightarrow> bool" where
  "disciplined W wd \<longleftrightarrow> (\<exists>ws. ginv W wd ws)"

definition announced :: "nat \<Rightarrow> nat \<Rightarrow> world \<Rightarrow> bool" where
  \<comment> \<open>the first two actions on the communicator are the broadcasts of \<open>n\<close> and \<open>k\<close>\<close>
  "announced n k wd \<longleftrightarrow> take 2 (trace wd) = [Bcast_n n, Bcast_k k]"

definition outcome :: "(nat list \<times> world) res option \<Rightarrow> (bool \<times> nat list \<times> event list) option" where
  \<comment> \<open>of a run of the master: whether it returned, the sequence it has, and its trace\<close>
  "outcome r =
     map_option (\<lambda>x. case x of Ret (a, wd) \<Rightarrow> (True, a, trace wd) | Fault (a, wd) \<Rightarrow> (False, a, trace wd)) r"

definition unanswered :: "nat \<Rightarrow> world \<Rightarrow> bool" where
  \<comment> \<open>no solution has reached the master and none is under way\<close>
  "unanswered n wd \<longleftrightarrow>
     solutions wd = [] \<and> (\<forall>w. \<forall>m \<in> set (inbox wd w). fst m \<noteq> solution_ready) \<and>
     (\<forall>w. length (wpos wd w) = n)"

text \<open>
  The state of the master between two calls, with the workers in the states \<open>ws\<close>, after the
  partial solutions \<open>disp\<close> have been dispatched and the reports for \<open>fin\<close> received.
\<close>

definition busy_set :: "nat \<Rightarrow> (nat \<Rightarrow> wstate) \<Rightarrow> nat set" where
  "busy_set W ws = {w. 1 \<le> w \<and> w \<le> W \<and> is_busy (ws w)}"

definition minv ::
  "nat \<Rightarrow> nat \<Rightarrow> nat \<Rightarrow> world \<Rightarrow> (nat \<Rightarrow> wstate) \<Rightarrow> nat list list \<Rightarrow> nat list list \<Rightarrow> bool" where
  "minv W n k wd ws disp fin \<longleftrightarrow>
     (\<forall>w. inbox wd w = (if 1 \<le> w \<and> w \<le> W then inbox_of n k (ws w) else [])) \<and>
     solutions wd = concat (map (batch_of n k) fin) \<and>
     active_workers wd = int (card (busy_set W ws)) \<and>
     (\<forall>w. length (wpos wd w) = n) \<and>
     set disp = set fin \<union> {u. \<exists>w. 1 \<le> w \<and> w \<le> W \<and> ws w = Busy u} \<and>
     replay (trace wd) (0, \<lambda>_. False) =
       Some (active_workers wd, \<lambda>w. w \<in> busy_set W ws) \<and>
     terms (trace wd) = []"

section \<open>The search loop follows the depth-first enumeration\<close>

lemma to_signed_small [simp]: "0 \<le> x \<Longrightarrow> x < 2147483648 \<Longrightarrow> to_signed x = x"
  by (simp add: to_signed_def)

lemma to_unsigned_small [simp]: "0 \<le> x \<Longrightarrow> x < 4294967296 \<Longrightarrow> to_unsigned x = x"
  by (simp add: to_unsigned_def)

lemma usub1_pos [simp]: "0 < n \<Longrightarrow> n \<le> 4294967296 \<Longrightarrow> usub1 n = int n - 1"
  by (simp add: usub1_def)

lemma usub1_zero [simp]: "usub1 0 = 4294967295"
  by (simp add: usub1_def)

lemma note_read_in [simp]: "in_block ml k \<Longrightarrow> note_read ml k s = s"
  by (simp add: note_read_def)

lemma note_write_in [simp]: "in_block ml k \<Longrightarrow> note_write ml k s = s"
  by (simp add: note_write_def)

lemma note_write_fields [simp]:
  "pos (note_write ml k s) = pos s" "index (note_write ml k s) = index s"
  "var_i (note_write ml k s) = var_i s" "var_j (note_write ml k s) = var_j s"
  "var_k (note_write ml k s) = var_k s" "flag (note_write ml k s) = flag s"
  "var_size (note_write ml k s) = var_size s" "stop_sign (note_write ml k s) = stop_sign s"
  "store (note_write ml k s) = store s" "stray (note_write ml k s) = stray s"
  by (simp_all add: note_write_def)

lemma wr_index_fields [simp]:
  "pos (wr_index ml k v s) = pos s" "index (wr_index ml k v s) = (index s)(k := v)"
  "var_i (wr_index ml k v s) = var_i s" "var_j (wr_index ml k v s) = var_j s"
  "var_k (wr_index ml k v s) = var_k s" "flag (wr_index ml k v s) = flag s"
  "var_size (wr_index ml k v s) = var_size s" "stop_sign (wr_index ml k v s) = stop_sign s"
  "store (wr_index ml k v s) = store s" "stray (wr_index ml k v s) = stray s"
  by (simp_all add: wr_index_def)

lemma note_read_fields [simp]:
  "pos (note_read ml k s) = pos s" "index (note_read ml k s) = index s"
  "var_i (note_read ml k s) = var_i s" "var_j (note_read ml k s) = var_j s"
  "var_k (note_read ml k s) = var_k s" "flag (note_read ml k s) = flag s"
  "var_size (note_read ml k s) = var_size s" "stop_sign (note_read ml k s) = stop_sign s"
  "store (note_read ml k s) = store s"
  by (simp_all add: note_read_def)

lemma search_loop_step: "flag s = 0 \<Longrightarrow> search_loop ml f s = resume ml f (body ml f s)"
  by (subst search_loop.simps) (simp add: resume_def)

lemma search_loop_stop: "flag s \<noteq> 0 \<Longrightarrow> search_loop ml f s = Some (Ret s)"
  by (subst search_loop.simps) simp

lemma resume_simps [simp]:
  "resume ml f None = None"
  "resume ml f (Some (Fault e)) = Some (Fault e)"
  "resume ml f (Some (Ret s)) = search_loop ml f s"
  by (simp_all add: resume_def)

lemma at_level_in_block: "at_level ml sz stp lg I ps s \<Longrightarrow> in_block ml (var_k s)"
  by (simp add: at_level_def in_block_def)

lemma ascend_stay:
  "in_block ml (var_k s) \<Longrightarrow> index s (var_k s) < var_size s - 1 \<Longrightarrow> ascend ml s = Some s"
  by (subst ascend.simps) (simp add: Let_def)

lemma ascend_up:
  "in_block ml (var_k s) \<Longrightarrow> index s (var_k s) \<ge> var_size s - 1 \<Longrightarrow> var_k s - 1 > stop_sign s \<Longrightarrow>
   ascend ml s = ascend ml (s\<lparr>var_k := var_k s - 1\<rparr>)"
  by (subst ascend.simps) (simp add: Let_def)

lemma next_candidate:
  assumes "at_level ml sz stp lg I ps t" "index t (int (length ps)) = int c" "Suc c < sz"
  shows "\<exists>u. backtrack ml t = Some (Ret u) \<and> cand ml sz stp lg I ps (Suc c) u \<and> store u = store t"
proof -
  have blk: "in_block ml (var_k t)" using assms(1) by (rule at_level_in_block)
  have k: "var_k t = int (length ps)" and sz: "var_size t = int sz" and fl: "flag t = 0"
    and len: "length (pos t) = sz"
    using assms(1) by (simp_all add: at_level_def)
  have "ascend ml t = Some t"
    using blk assms(2,3) k sz by (intro ascend_stay) simp_all
  moreover have "advance ml t = Ret (t\<lparr>index := (index t)(int (length ps) := int c + 1), var_i := 0,
      var_j := to_signed (int (pos t ! 0))\<rparr>)"
    using blk fl k assms(2,3) len
    by (auto simp: advance_def wr_index_def restart_def set_j_def)
  moreover have "cand ml sz stp lg I ps (Suc c) (t\<lparr>index := (index t)(int (length ps) := int c + 1), var_i := 0,
      var_j := to_signed (int (pos t ! 0))\<rparr>)"
  proof -
    have "ps \<noteq> [] \<Longrightarrow> pos t ! 0 = ps ! 0 \<and> ps ! 0 < 2147483648"
    proof -
      assume ne: "ps \<noteq> []"
      have "take (length ps) (pos t) = ps" using assms(1) by (simp add: at_level_def)
      then have "ps ! 0 = pos t ! 0" using ne
        by (metis length_greater_0_conv nth_take)
      moreover have "ps ! 0 \<in> set ps" using ne by simp
      then have "ps ! 0 < 2147483648" using assms(1) by (simp add: at_level_def)
      ultimately show ?thesis by simp
    qed
    then show ?thesis
      using assms by (auto simp: cand_def at_level_def)
  qed
  ultimately show ?thesis by (simp add: backtrack_def)
qed

lemma safe_clash: "safe ps c \<longleftrightarrow> (\<forall>i \<in> {0..<length ps}. \<not> clash ps c i)"
  by (auto simp: safe_def clash_def)

lemma attack_test_clash:
  "i < length ps \<Longrightarrow> attack_test (int i) (int (ps ! i)) (int (length ps)) (int c) \<longleftrightarrow> clash ps c i"
  by (auto simp: attack_test_def clash_def)

lemma note_test_in [simp]: "in_block ml (var_k s) \<Longrightarrow> note_test ml s = s"
  by (simp add: note_test_def)

lemma check_rows:
  assumes "at_level ml sz stp lg I ps s" "index s (int (length ps)) = int c"
    "var_i s = int i" "i < length ps" "var_j s = int (ps ! i)"
  shows "\<exists>i' j'. search_loop ml f s =
       resume ml f (if (\<forall>i' \<in> {i..<length ps}. \<not> clash ps c i')
                    then place ml f (s\<lparr>var_i := i', var_j := j'\<rparr>)
                    else backtrack ml (s\<lparr>var_i := i', var_j := j'\<rparr>))"
  using assms
proof (induction "length ps - i" arbitrary: i s)
  case 0
  then show ?case by simp
next
  case (Suc n)
  have blk: "in_block ml (var_k s)" using Suc.prems(1) by (rule at_level_in_block)
  have k: "var_k s = int (length ps)" and fl: "flag s = 0"
    using Suc.prems(1) by (simp_all add: at_level_def)
  have same: "s\<lparr>var_i := var_i s, var_j := var_j s\<rparr> = s" by simp
  have att: "attack_test (var_i s) (var_j s) (var_k s) (index s (var_k s)) \<longleftrightarrow> clash ps c i"
    using Suc.prems attack_test_clash[of i ps c] k by simp
  show ?case
  proof (cases "clash ps c i")
    case True
    then have "body ml f s = backtrack ml s"
      using att blk by (simp add: body_def)
    moreover have "\<not> (\<forall>i' \<in> {i..<length ps}. \<not> clash ps c i')"
      using True Suc.prems(4) by auto
    then have "(if (\<forall>i' \<in> {i..<length ps}. \<not> clash ps c i') then place ml f s else backtrack ml s)
       = backtrack ml s" by (rule if_not_P)
    ultimately have "search_loop ml f s =
       resume ml f (if (\<forall>i' \<in> {i..<length ps}. \<not> clash ps c i')
                    then place ml f (s\<lparr>var_i := var_i s, var_j := var_j s\<rparr>)
                    else backtrack ml (s\<lparr>var_i := var_i s, var_j := var_j s\<rparr>))"
      using fl by (simp only: search_loop_step same)
    then show ?thesis by blast
  next
    case False
    show ?thesis
    proof (cases "Suc i = length ps")
      case True
      then have "body ml f s = place ml f s"
        using att blk False k Suc.prems(3) by (simp add: body_def)
      moreover have "\<forall>i' \<in> {i..<length ps}. \<not> clash ps c i'"
        using False True by (auto simp: less_Suc_eq le_less)
      then have "(if (\<forall>i' \<in> {i..<length ps}. \<not> clash ps c i') then place ml f s else backtrack ml s)
         = place ml f s" by (rule if_P)
      ultimately have "search_loop ml f s =
         resume ml f (if (\<forall>i' \<in> {i..<length ps}. \<not> clash ps c i')
                      then place ml f (s\<lparr>var_i := var_i s, var_j := var_j s\<rparr>)
                      else backtrack ml (s\<lparr>var_i := var_i s, var_j := var_j s\<rparr>))"
        using fl by (simp only: search_loop_step same)
      then show ?thesis by blast
    next
      case ne: False
      then have lt: "Suc i < length ps" using Suc.prems(4) by simp
      let ?s' = "s\<lparr>var_i := int (Suc i), var_j := int (ps ! Suc i)\<rparr>"
      have tk: "take (length ps) (pos s) = ps" and len: "length (pos s) = sz" and small: "\<forall>x \<in> set ps. x < 2147483648"
        and le: "length ps < ml" "ml \<le> sz"
        using Suc.prems(1) by (simp_all add: at_level_def)
      have nth: "pos s ! Suc i = ps ! Suc i"
        using tk lt by (metis nth_take)
      have "ps ! Suc i \<in> set ps" using lt by simp
      then have sm: "ps ! Suc i < 2147483648" using small by simp
      have "set_j (s\<lparr>var_i := var_i s + 1\<rparr>) = Ret ?s'"
        using Suc.prems(3) lt le len nth sm by (simp add: set_j_def nat_add_distrib)
      then have "body ml f s = Some (Ret ?s')"
        using att blk False k Suc.prems(3) lt by (simp add: body_def)
      then have step: "search_loop ml f s = search_loop ml f ?s'"
        using fl by (simp add: search_loop_step)
      have "\<exists>i' j'. search_loop ml f ?s' =
         resume ml f (if (\<forall>i' \<in> {Suc i..<length ps}. \<not> clash ps c i')
                      then place ml f (?s'\<lparr>var_i := i', var_j := j'\<rparr>)
                      else backtrack ml (?s'\<lparr>var_i := i', var_j := j'\<rparr>))"
      proof (rule Suc.hyps(1))
        show "n = length ps - Suc i" using Suc.hyps(2) by simp
        show "at_level ml sz stp lg I ps ?s'" using Suc.prems(1) by (simp add: at_level_def)
      qed (use Suc.prems lt in simp_all)
      then obtain i' j' where "search_loop ml f ?s' =
         resume ml f (if (\<forall>i' \<in> {Suc i..<length ps}. \<not> clash ps c i')
                      then place ml f (?s'\<lparr>var_i := i', var_j := j'\<rparr>)
                      else backtrack ml (?s'\<lparr>var_i := i', var_j := j'\<rparr>))" by blast
      moreover have "?s'\<lparr>var_i := i', var_j := j'\<rparr> = s\<lparr>var_i := i', var_j := j'\<rparr>" by simp
      moreover have "(\<forall>i' \<in> {i..<length ps}. \<not> clash ps c i') \<longleftrightarrow> (\<forall>i' \<in> {Suc i..<length ps}. \<not> clash ps c i')"
        using False by (auto simp: Suc_le_eq le_less)
      ultimately have "search_loop ml f s =
         resume ml f (if (\<forall>i' \<in> {i..<length ps}. \<not> clash ps c i')
                      then place ml f (s\<lparr>var_i := i', var_j := j'\<rparr>)
                      else backtrack ml (s\<lparr>var_i := i', var_j := j'\<rparr>))"
        using step by (simp only:)
      then show ?thesis by blast
    qed
  qed
qed

lemma emit_all_append:
  "emit_all f (xs @ ys) c = (case emit_all f xs c of None \<Rightarrow> None | Some c' \<Rightarrow> emit_all f ys c')"
  by (induction xs arbitrary: c) (auto split: option.splits)

lemma take_Suc_update: "k < length xs \<Longrightarrow> take (Suc k) (xs[k := c]) = take k xs @ [c]"
  by (simp add: take_Suc_conv_app_nth)

lemma from_col_0: "from_col sz d ps 0 = extensions sz (Suc d) ps"
  by (simp add: from_col_def)

lemma from_col_step:
  "c < sz \<Longrightarrow> from_col sz d ps c =
     (if safe ps c then extensions sz d (ps @ [c]) else []) @ from_col sz d ps (Suc c)"
  by (simp add: from_col_def upt_conv_Cons)

lemma from_col_end: "from_col sz d ps sz = []"
  by (simp add: from_col_def)

lemma first_row:
  assumes "cand ml sz stp lg I ps c s"
  shows "\<exists>i' j'. search_loop ml f s =
     resume ml f (if safe ps c then place ml f (s\<lparr>var_i := i', var_j := j'\<rparr>)
                  else backtrack ml (s\<lparr>var_i := i', var_j := j'\<rparr>))"
proof (cases "ps = []")
  case True
  have al: "at_level ml sz stp lg I ps s" and i0: "var_i s = 0"
    using assms by (simp_all add: cand_def)
  have blk: "in_block ml (var_k s)" using al by (rule at_level_in_block)
  have k: "var_k s = 0" and fl: "flag s = 0" using al True by (simp_all add: at_level_def)
  have "body ml f s = place ml f s"
    using blk k i0 by (simp add: body_def attack_test_def)
  moreover have "safe ps c" using True by (simp add: safe_def)
  ultimately have "search_loop ml f s =
     resume ml f (if safe ps c then place ml f (s\<lparr>var_i := var_i s, var_j := var_j s\<rparr>)
                  else backtrack ml (s\<lparr>var_i := var_i s, var_j := var_j s\<rparr>))"
    using fl by (simp add: search_loop_step)
  then show ?thesis by blast
next
  case False
  have al: "at_level ml sz stp lg I ps s" and ix: "index s (int (length ps)) = int c"
    and i0: "var_i s = int 0" and j0: "var_j s = int (ps ! 0)"
    using assms False by (simp_all add: cand_def)
  have "0 < length ps" using False by simp
  from check_rows[OF al ix i0 this j0, of f] show ?thesis
    by (simp only: safe_clash)
qed

lemma first_row_state:
  assumes "cand ml sz stp lg I ps c s"
  shows "\<exists>t. at_level ml sz stp lg I ps t \<and> index t (int (length ps)) = int c \<and> store t = store s \<and>
     search_loop ml f s = resume ml f (if safe ps c then place ml f t else backtrack ml t)"
proof -
  from first_row[OF assms, of f] obtain i' j' where
    "search_loop ml f s =
     resume ml f (if safe ps c then place ml f (s\<lparr>var_i := i', var_j := j'\<rparr>)
                  else backtrack ml (s\<lparr>var_i := i', var_j := j'\<rparr>))" by blast
  moreover have "at_level ml sz stp lg I ps (s\<lparr>var_i := i', var_j := j'\<rparr>)"
    using assms by (simp add: cand_def at_level_def)
  moreover have "index (s\<lparr>var_i := i', var_j := j'\<rparr>) (int (length ps)) = int c"
    using assms by (simp add: cand_def)
  ultimately show ?thesis by (intro exI[of _ "s\<lparr>var_i := i', var_j := j'\<rparr>"]) simp
qed

lemma last_row_state:
  assumes al: "at_level ml sz stp lg I ps t" and ix: "index t (int (length ps)) = int c"
    and c: "c < sz" and eq: "Suc (length ps) = ml"
  shows "place ml f t =
     (case f (ps @ [c]) (store t) of None \<Rightarrow> None
      | Some c' \<Rightarrow> backtrack ml (t\<lparr>pos := (pos t)[length ps := c], store := c'\<rparr>))"
proof -
  let ?k = "length ps"
  have blk: "in_block ml (var_k t)" using al by (rule at_level_in_block)
  have k: "var_k t = int ?k" and len: "length (pos t) = sz" and le: "ml \<le> sz" and sz: "sz < 2147483648"
    and tk: "take ?k (pos t) = ps"
    using al by (simp_all add: at_level_def)
  let ?t1 = "t\<lparr>pos := (pos t)[?k := c]\<rparr>"
  have w: "wr_pos ml t = Ret ?t1"
    using blk k len le eq ix c sz by (simp add: wr_pos_def Let_def)
  have e: "to_unsigned (var_k ?t1) = usub1 ml"
    using k eq le sz by simp
  have "take ml (pos ?t1) = ps @ [c]"
    using take_Suc_update[of ?k "pos t" c] tk len eq le by simp
  then have "report ml f ?t1 = map_option (\<lambda>c'. Ret (?t1\<lparr>store := c'\<rparr>)) (f (ps @ [c]) (store t))"
    using eq le len by (simp add: report_def)
  then show ?thesis
    using w e by (simp add: place_def split: option.splits)
qed

lemma pop_level:
  assumes al: "at_level ml sz stp lg I' (ps @ [c]) t" and ix: "index t (int (length ps) + 1) = int sz - 1"
    and I': "I' = I(int (length ps) := int c)" and stp: "stp < int (length ps)"
  shows "backtrack ml t = backtrack ml (t\<lparr>var_k := int (length ps)\<rparr>) \<and>
     at_level ml sz stp lg I ps (t\<lparr>var_k := int (length ps)\<rparr>) \<and>
     index (t\<lparr>var_k := int (length ps)\<rparr>) (int (length ps)) = int c"
proof -
  have blk: "in_block ml (var_k t)" using al by (rule at_level_in_block)
  have k: "var_k t = int (length ps) + 1" and vs: "var_size t = int sz" and st: "stop_sign t = stp"
    using al by (simp_all add: at_level_def)
  have "ascend ml t = ascend ml (t\<lparr>var_k := var_k t - 1\<rparr>)"
    using blk k vs st stp ix by (intro ascend_up) simp_all
  then have "backtrack ml t = backtrack ml (t\<lparr>var_k := int (length ps)\<rparr>)"
    using k by (simp add: backtrack_def)
  moreover have "take (length ps) (pos t) = ps"
  proof -
    have "take (Suc (length ps)) (pos t) = ps @ [c]" using al by (simp add: at_level_def)
    then have "take (length ps) (take (Suc (length ps)) (pos t)) = take (length ps) (ps @ [c])" by simp
    then show ?thesis by (simp add: min_def)
  qed
  ultimately show ?thesis
    using al I' stp by (auto simp: at_level_def)
qed

lemma take_eq_nth: "take k xs = ps \<Longrightarrow> i < k \<Longrightarrow> ps ! i = xs ! i"
  by auto

lemma descend_state:
  assumes al: "at_level ml sz stp lg I ps t" and ix: "index t (int (length ps)) = int c"
    and c: "c < sz" and lt: "Suc (length ps) < ml"
  shows "\<exists>u. place ml f t = Some (Ret u) \<and> cand ml sz stp lg (I(int (length ps) := int c)) (ps @ [c]) 0 u
     \<and> store u = store t"
proof -
  let ?k = "length ps"
  have blk: "in_block ml (var_k t)" using al by (rule at_level_in_block)
  have k: "var_k t = int ?k" and len: "length (pos t) = sz" and le: "ml \<le> sz" and sz: "sz < 2147483648"
    and tk: "take ?k (pos t) = ps"
    using al by (simp_all add: at_level_def)
  let ?t1 = "t\<lparr>pos := (pos t)[?k := c]\<rparr>"
  have w: "wr_pos ml t = Ret ?t1"
    using blk k len le lt ix c sz by (simp add: wr_pos_def Let_def)
  have ne: "to_unsigned (var_k ?t1) \<noteq> usub1 ml"
    using k lt le sz by simp
  let ?u = "t\<lparr>pos := (pos t)[?k := c], var_k := int ?k + 1,
      index := (index t)(int ?k + 1 := 0), var_i := 0, var_j := int ((pos t)[?k := c] ! 0)\<rparr>"
  have small0: "(pos t)[?k := c] ! 0 < 2147483648"
  proof (cases "?k = 0")
    case True then show ?thesis using len c sz lt le by simp
  next
    case False
    then have "(pos t)[?k := c] ! 0 = ps ! 0" using take_eq_nth[OF tk, of 0] by simp
    moreover have "ps ! 0 \<in> set ps" using False by simp
    ultimately show ?thesis using al by (simp add: at_level_def)
  qed
  have wi: "wr_index ml (var_k ?t1 + 1) 0 (?t1\<lparr>var_k := var_k ?t1 + 1\<rparr>)
     = ?t1\<lparr>var_k := int ?k + 1, index := (index t)(int ?k + 1 := 0)\<rparr>"
    using k lt by (simp add: wr_index_def in_block_def)
  have rs: "restart (?t1\<lparr>var_k := int ?k + 1, index := (index t)(int ?k + 1 := 0)\<rparr>) = Ret ?u"
    using len lt le small0 by (simp add: restart_def set_j_def)
  have "place ml f t = Some (Ret ?u)"
    unfolding place_def using w ne wi rs by simp
  moreover have "cand ml sz stp lg (I(int ?k := int c)) (ps @ [c]) 0 ?u"
  proof -
    have "take (Suc ?k) ((pos t)[?k := c]) = ps @ [c]"
      using take_Suc_update[of ?k "pos t" c] tk len lt le by simp
    moreover have "(ps @ [c]) ! 0 = (pos t)[?k := c] ! 0"
    proof (cases "?k = 0")
      case True then show ?thesis using len lt le by simp
    next
      case False
      then have "(pos t)[?k := c] ! 0 = ps ! 0" using take_eq_nth[OF tk, of 0] by simp
      then show ?thesis using False by (simp add: nth_append)
    qed
    moreover have "\<forall>x \<in> set (ps @ [c]). x < 2147483648"
      using al c by (auto simp: at_level_def)
    moreover have "\<forall>l. l < int (length (ps @ [c])) \<longrightarrow>
        index ?u l = (I(int ?k := int c)) l"
      using al ix by (auto simp: at_level_def)
    ultimately show ?thesis
      unfolding cand_def at_level_def using al lt c
      by (simp add: at_level_def)
  qed
  ultimately show ?thesis by (intro exI[of _ ?u]) simp
qed


lemma reaches_prepend:
  assumes "search_loop ml f s = search_loop ml f u" "store u = store s"
    "reaches ml sz stp lg I ps f u xs c"
  shows "reaches ml sz stp lg I ps f s xs c"
  using assms by (auto simp: reaches_def split: option.splits)

lemma column_done:
  assumes desc: "\<And>I' u. Suc (length ps) < ml \<Longrightarrow> cand ml sz stp lg I' (ps @ [c]) 0 u \<Longrightarrow>
      reaches ml sz stp lg I' (ps @ [c]) f u (from_col sz (ml - length ps - 2) (ps @ [c]) 0) (sz - 1)"
    and cd: "cand ml sz stp lg I ps c s"
  shows "reaches ml sz stp lg I ps f s
     (if safe ps c then extensions sz (ml - length ps - 1) (ps @ [c]) else []) c"
proof -
  from first_row_state[OF cd, of f] obtain t where
    al: "at_level ml sz stp lg I ps t" and ix: "index t (int (length ps)) = int c"
    and st: "store t = store s"
    and run: "search_loop ml f s = resume ml f (if safe ps c then place ml f t else backtrack ml t)"
    by blast
  have c: "c < sz" using cd by (simp add: cand_def)
  have lt: "length ps < ml" and stp: "stp < int (length ps)" using al by (simp_all add: at_level_def)
  show ?thesis
  proof (cases "safe ps c")
    case False
    then show ?thesis
      using al ix st run by (auto simp: reaches_def)
  next
    case True
    show ?thesis
    proof (cases "Suc (length ps) = ml")
      case last: True
      have pl: "place ml f t =
         (case f (ps @ [c]) (store s) of None \<Rightarrow> None
          | Some c' \<Rightarrow> backtrack ml (t\<lparr>pos := (pos t)[length ps := c], store := c'\<rparr>))"
        using last_row_state[OF al ix c last, of f] st by simp
      have ex: "extensions sz (ml - length ps - 1) (ps @ [c]) = [ps @ [c]]"
        using last by (simp flip: last)
      show ?thesis
      proof (cases "f (ps @ [c]) (store s)")
        case None
        then show ?thesis using True run pl ex by (simp add: reaches_def)
      next
        case (Some c')
        let ?t = "t\<lparr>pos := (pos t)[length ps := c], store := c'\<rparr>"
        have "at_level ml sz stp lg I ps ?t" using al by (simp add: at_level_def)
        moreover have "index ?t (int (length ps)) = int c" using ix by simp
        moreover have "search_loop ml f s = resume ml f (backtrack ml ?t)"
          using True run pl Some by simp
        ultimately show ?thesis
          using True ex Some by (auto simp: reaches_def intro!: exI[of _ ?t])
      qed
    next
      case False
      then have deeper: "Suc (length ps) < ml" using lt by simp
      from descend_state[OF al ix c deeper, of f] obtain u where
        pl: "place ml f t = Some (Ret u)"
        and cu: "cand ml sz stp lg (I(int (length ps) := int c)) (ps @ [c]) 0 u"
        and su: "store u = store s" using st by auto
      have step: "search_loop ml f s = search_loop ml f u"
        using True run pl by simp
      have d: "ml - length ps - 1 = Suc (ml - length ps - 2)" using deeper by simp
      have r: "reaches ml sz stp lg (I(int (length ps) := int c)) (ps @ [c]) f u
          (extensions sz (ml - length ps - 1) (ps @ [c])) (sz - 1)"
        using desc[OF deeper cu] by (simp only: from_col_0 flip: d)
      show ?thesis
      proof (cases "emit_all f (extensions sz (ml - length ps - 1) (ps @ [c])) (store s)")
        case None
        then show ?thesis using True r step su by (simp add: reaches_def)
      next
        case (Some c')
        then obtain t' where
          al': "at_level ml sz stp lg (I(int (length ps) := int c)) (ps @ [c]) t'"
          and ix': "index t' (int (length (ps @ [c]))) = int (sz - 1)"
          and st': "store t' = c'"
          and run': "search_loop ml f u = resume ml f (backtrack ml t')"
          using r su by (auto simp: reaches_def)
        have "int (length (ps @ [c])) = int (length ps) + 1" "int (sz - 1) = int sz - 1"
          using c by simp_all
        then have "index t' (int (length ps) + 1) = int sz - 1"
          using ix' by (simp only:)
        from pop_level[OF al' this refl stp]
        have "backtrack ml t' = backtrack ml (t'\<lparr>var_k := int (length ps)\<rparr>)"
          and "at_level ml sz stp lg I ps (t'\<lparr>var_k := int (length ps)\<rparr>)"
          and "index (t'\<lparr>var_k := int (length ps)\<rparr>) (int (length ps)) = int c"
          by simp_all
        then show ?thesis
          using True Some step run' st'
          by (auto simp: reaches_def intro!: exI[of _ "t'\<lparr>var_k := int (length ps)\<rparr>"])
      qed
    qed
  qed
qed

lemma level_done_aux:
  assumes desc: "\<And>I' u c. Suc (length ps) < ml \<Longrightarrow> cand ml sz stp lg I' (ps @ [c]) 0 u \<Longrightarrow>
      reaches ml sz stp lg I' (ps @ [c]) f u (from_col sz (ml - length ps - 2) (ps @ [c]) 0) (sz - 1)"
    and cd: "cand ml sz stp lg I ps c s"
  shows "reaches ml sz stp lg I ps f s (from_col sz (ml - length ps - 1) ps c) (sz - 1)"
  using cd
proof (induction "sz - c" arbitrary: c s)
  case 0
  then show ?case by (simp add: cand_def)
next
  case (Suc n)
  have c: "c < sz" using Suc.prems by (simp add: cand_def)
  let ?X = "if safe ps c then extensions sz (ml - length ps - 1) (ps @ [c]) else []"
  let ?R = "from_col sz (ml - length ps - 1) ps (Suc c)"
  have split: "from_col sz (ml - length ps - 1) ps c = ?X @ ?R"
    using c by (rule from_col_step)
  have one: "reaches ml sz stp lg I ps f s ?X c"
    using desc Suc.prems by (rule column_done)
  show ?case
  proof (cases "emit_all f ?X (store s)")
    case None
    then show ?thesis using one unfolding split by (simp add: reaches_def emit_all_append)
  next
    case (Some c')
    then obtain t where
      al: "at_level ml sz stp lg I ps t" and ix: "index t (int (length ps)) = int c"
      and st: "store t = c'"
      and run: "search_loop ml f s = resume ml f (backtrack ml t)"
      using one by (auto simp: reaches_def)
    show ?thesis
    proof (cases "Suc c = sz")
      case True
      then have "?R = []" by (simp add: from_col_end)
      moreover have "int c = int (sz - 1)" using True by auto
      ultimately show ?thesis
        unfolding split using Some al ix st run
        by (auto simp: reaches_def emit_all_append)
    next
      case False
      then have "Suc c < sz" using c by simp
      from next_candidate[OF al ix this] obtain u where
        bt: "backtrack ml t = Some (Ret u)" and cu: "cand ml sz stp lg I ps (Suc c) u"
        and su: "store u = c'" using st by auto
      have "reaches ml sz stp lg I ps f u ?R (sz - 1)"
      proof (rule Suc.hyps(1))
        show "n = sz - Suc c" using Suc.hyps(2) by simp
      qed (rule cu)
      moreover have "search_loop ml f s = search_loop ml f u" using run bt by simp
      ultimately show ?thesis
        unfolding split using Some su
        by (auto simp: reaches_def emit_all_append split: option.splits)
    qed
  qed
qed

lemma level_done:
  fixes s :: "'c frame"
  assumes "cand ml sz stp lg I ps c s"
  shows "reaches ml sz stp lg I ps f s (from_col sz (ml - length ps - 1) ps c) (sz - 1)"
  using assms
proof (induction "ml - length ps" arbitrary: ps I c s)
  case 0
  then show ?case by (simp add: cand_def at_level_def)
next
  case (Suc d)
  show ?case
  proof (rule level_done_aux)
    fix I' and u :: "'c frame" and c'
    assume "Suc (length ps) < ml" and cu: "cand ml sz stp lg I' (ps @ [c']) 0 u"
    have "reaches ml sz stp lg I' (ps @ [c']) f u
        (from_col sz (ml - length (ps @ [c']) - 1) (ps @ [c']) 0) (sz - 1)"
    proof (rule Suc.hyps(1))
      show "d = ml - length (ps @ [c'])" using Suc.hyps(2) by simp
    qed (rule cu)
    then show "reaches ml sz stp lg I' (ps @ [c']) f u
        (from_col sz (ml - length ps - 2) (ps @ [c']) 0) (sz - 1)"
      by (simp add: numeral_2_eq_2)
  qed (rule Suc.prems)
qed

lemma for_init_result:
  assumes "var_k s = int k" "k \<le> ml" "0 < ml" "ml < 2147483648"
  shows "for_init ml s =
     Ret (s\<lparr>index := (\<lambda>l. if int k \<le> l \<and> l < int ml then 0 else index s l), var_k := int ml\<rparr>)"
  using assms
proof (induction "ml - k" arbitrary: k s)
  case 0
  then have k: "k = ml" by simp
  have "(\<lambda>l. if int k \<le> l \<and> l < int ml then 0 else index s l) = index s"
    using k by auto
  moreover have "for_init ml s = Ret s"
    using 0 k by (subst for_init.simps) simp
  ultimately show ?case using 0 k by simp
next
  case (Suc n)
  then have lt: "k < ml" by simp
  let ?s = "s\<lparr>index := (index s)(var_k s := 0), var_k := var_k s + 1\<rparr>"
  have "for_init ml s = for_init ml ?s"
    using Suc.prems lt by (subst for_init.simps) (simp add: in_block_def)
  also have "\<dots> = Ret (?s\<lparr>index := (\<lambda>l. if int (Suc k) \<le> l \<and> l < int ml then 0 else index ?s l),
      var_k := int ml\<rparr>)"
  proof (rule Suc.hyps(1))
    show "n = ml - Suc k" using Suc.hyps(2) by simp
  qed (use Suc.prems lt in simp_all)
  also have "(\<lambda>l. if int (Suc k) \<le> l \<and> l < int ml then 0 else index ?s l)
      = (\<lambda>l. if int k \<le> l \<and> l < int ml then 0 else index s l)"
    using Suc.prems(1) lt by (auto simp: fun_eq_iff)
  finally show ?case by simp
qed

lemma descent:
  assumes "flag t = 1" "index t (var_k t - int m) < var_size t - 1"
  shows "\<exists>t' rest. ascend ml t = Some t' \<and> flag t' = 1 \<and> store t' = store t \<and> pos t' = pos t \<and>
     stray t' = stray (note_read ml (var_k t) t) @ rest"
  using assms
proof (induction m arbitrary: t)
  case 0
  then have "ascend ml t = Some (note_read ml (var_k t) t)"
    by (subst ascend.simps) (simp add: Let_def)
  then show ?case using 0 by simp
next
  case (Suc m)
  show ?case
  proof (cases "index t (var_k t) < var_size t - 1")
    case True
    then have "ascend ml t = Some (note_read ml (var_k t) t)"
      by (subst ascend.simps) (simp add: Let_def)
    then show ?thesis using Suc.prems by simp
  next
    case False
    let ?t = "(note_read ml (var_k t) t)\<lparr>var_k := var_k t - 1, flag := 1\<rparr>"
    have "ascend ml t = ascend ml ?t"
      using False Suc.prems(1) by (subst ascend.simps) (simp add: Let_def)
    moreover have "\<exists>t' rest. ascend ml ?t = Some t' \<and> flag t' = 1 \<and> store t' = store ?t \<and> pos t' = pos ?t \<and>
       stray t' = stray (note_read ml (var_k ?t) ?t) @ rest"
    proof (rule Suc.IH)
      have e: "var_k t - 1 - int m = var_k t - int (Suc m)" by simp
      have "index t (var_k t - 1 - int m) < var_size t - 1"
        using Suc.prems(2) unfolding e .
      then show "index ?t (var_k ?t - int m) < var_size ?t - 1"
        by simp
    qed simp
    moreover have "\<exists>r. stray (note_read ml (var_k ?t) ?t) = stray (note_read ml (var_k t) t) @ r"
      by (simp add: note_read_def)
    ultimately show ?thesis by auto
  qed
qed

lemma to_signed_usub1: "n < 2147483648 \<Longrightarrow> to_signed (usub1 n) = int n - 1"
  by (cases "n = 0") (simp_all add: to_signed_def)

lemma ascend_never:
  assumes "ascend ml s = Some t"
  shows "\<exists>m. index s (var_k s - int m) < var_size s - 1"
proof (rule ascend.raw_induct[where P = "\<lambda>ml s t. \<exists>m. index s (var_k s - int m) < var_size s - 1",
      rotated, OF assms])
  fix asc :: "nat \<Rightarrow> 'a frame \<Rightarrow> 'a frame option" and ml s0 t
  assume IH: "\<And>ml s t. asc ml s = Some t \<Longrightarrow> \<exists>m. index s (var_k s - int m) < var_size s - 1"
    and eq: "(let s = note_read ml (var_k s0) s0 in
       if var_size s - 1 \<le> index s (var_k s)
       then asc ml (s\<lparr>var_k := var_k s - 1, flag := if var_k s - 1 \<le> stop_sign s then 1 else flag s\<rparr>)
       else Some s) = Some t"
  show "\<exists>m. index s0 (var_k s0 - int m) < var_size s0 - 1"
  proof (cases "index s0 (var_k s0) < var_size s0 - 1")
    case True
    then have "index s0 (var_k s0 - int 0) < var_size s0 - 1" by simp
    then show ?thesis by blast
  next
    case False
    let ?s = "(note_read ml (var_k s0) s0)\<lparr>var_k := var_k s0 - 1,
        flag := (if var_k s0 - 1 \<le> stop_sign s0 then 1 else flag s0)\<rparr>"
    have "asc ml ?s = Some t"
      using eq False by (simp add: Let_def split: if_splits)
    then obtain m where "index ?s (var_k ?s - int m) < var_size ?s - 1"
      using IH by blast
    then have "index s0 (var_k s0 - int (Suc m)) < var_size s0 - 1"
      by (simp add: algebra_simps)
    then show ?thesis by blast
  qed
qed

lemma ascend_keeps:
  assumes "ascend ml s = Some t"
  shows "store t = store s \<and> pos t = pos s \<and> index t = index s \<and> var_size t = var_size s \<and>
     stop_sign t = stop_sign s \<and> var_i t = var_i s \<and> var_j t = var_j s \<and>
     var_k t \<le> var_k s \<and> (flag t = flag s \<or> flag t = 1) \<and>
     (var_k t < var_k s \<and> var_k s - 1 \<le> stop_sign s \<longrightarrow> flag t = 1)"
proof (rule ascend.raw_induct[where P = "\<lambda>ml s t. store t = store s \<and> pos t = pos s \<and> index t = index s \<and> var_size t = var_size s \<and>
     stop_sign t = stop_sign s \<and> var_i t = var_i s \<and> var_j t = var_j s \<and>
     var_k t \<le> var_k s \<and> (flag t = flag s \<or> flag t = 1) \<and>
     (var_k t < var_k s \<and> var_k s - 1 \<le> stop_sign s \<longrightarrow> flag t = 1)",
      rotated, OF assms])
  fix asc :: "nat \<Rightarrow> 'a frame \<Rightarrow> 'a frame option" and ml s0 t
  assume IH: "\<And>ml s t. asc ml s = Some t \<Longrightarrow> store t = store s \<and> pos t = pos s \<and> index t = index s \<and> var_size t = var_size s \<and>
     stop_sign t = stop_sign s \<and> var_i t = var_i s \<and> var_j t = var_j s \<and>
     var_k t \<le> var_k s \<and> (flag t = flag s \<or> flag t = 1) \<and>
     (var_k t < var_k s \<and> var_k s - 1 \<le> stop_sign s \<longrightarrow> flag t = 1)"
    and eq: "(let s = note_read ml (var_k s0) s0 in
       if var_size s - 1 \<le> index s (var_k s)
       then asc ml (s\<lparr>var_k := var_k s - 1, flag := if var_k s - 1 \<le> stop_sign s then 1 else flag s\<rparr>)
       else Some s) = Some t"
  show "store t = store s0 \<and> pos t = pos s0 \<and> index t = index s0 \<and> var_size t = var_size s0 \<and>
     stop_sign t = stop_sign s0 \<and> var_i t = var_i s0 \<and> var_j t = var_j s0 \<and>
     var_k t \<le> var_k s0 \<and> (flag t = flag s0 \<or> flag t = 1) \<and>
     (var_k t < var_k s0 \<and> var_k s0 - 1 \<le> stop_sign s0 \<longrightarrow> flag t = 1)"
  proof (cases "index s0 (var_k s0) < var_size s0 - 1")
    case True
    then have "t = note_read ml (var_k s0) s0"
      using eq by (simp add: Let_def)
    then show ?thesis by simp
  next
    case False
    let ?s = "(note_read ml (var_k s0) s0)\<lparr>var_k := var_k s0 - 1,
        flag := (if var_k s0 - 1 \<le> stop_sign s0 then 1 else flag s0)\<rparr>"
    have "asc ml ?s = Some t"
      using eq False by (simp add: Let_def split: if_splits)
    from IH[OF this] show ?thesis
      by (auto split: if_splits)
  qed
qed

lemma exhausted:
  assumes al: "at_level ml sz (int (length ps) - 1) lg I ps t"
    and ix: "index t (int (length ps)) = int sz - 1"
    and h: "I (int (length ps) - 1 - int m) < int sz - 1"
  shows "\<exists>t'. resume ml f (backtrack ml t) = Some (Ret t') \<and> store t' = store t \<and>
     (ps = [] \<longrightarrow> - 1 \<in> set (stray t'))"
proof -
  have blk: "in_block ml (var_k t)" using al by (rule at_level_in_block)
  have k: "var_k t = int (length ps)" and vs: "var_size t = int sz" and st: "stop_sign t = int (length ps) - 1"
    and len: "length (pos t) = sz" and lt: "length ps < ml" "ml \<le> sz"
    and I: "\<forall>l. l < int (length ps) \<longrightarrow> index t l = I l"
    using al by (simp_all add: at_level_def)
  let ?t = "t\<lparr>var_k := int (length ps) - 1, flag := 1\<rparr>"
  have "ascend ml t = ascend ml ?t"
    using blk k vs st ix by (subst ascend.simps) (simp add: Let_def)
  moreover have "\<exists>t' rest. ascend ml ?t = Some t' \<and> flag t' = 1 \<and> store t' = store ?t \<and> pos t' = pos ?t \<and>
     stray t' = stray (note_read ml (var_k ?t) ?t) @ rest"
  proof (rule descent)
    show "index ?t (var_k ?t - int m) < var_size ?t - 1"
      using h I vs by simp
  qed simp
  ultimately obtain t' rest where a: "ascend ml t = Some t'" and fl: "flag t' = 1"
    and s: "store t' = store t" and p: "pos t' = pos t"
    and lg: "stray t' = stray (note_read ml (var_k ?t) ?t) @ rest"
    by auto
  let ?r = "t'\<lparr>var_i := 0, var_j := to_signed (int (pos t' ! 0))\<rparr>"
  have "advance ml t' = Ret ?r"
    using fl p len lt by (simp add: advance_def restart_def set_j_def)
  then have "resume ml f (backtrack ml t) = Some (Ret ?r)"
    using a fl by (simp add: backtrack_def search_loop_stop)
  moreover have "ps = [] \<Longrightarrow> - 1 \<in> set (stray ?r)"
    using lg by (simp add: note_read_def in_block_def)
  ultimately show ?thesis using s by auto
qed

lemma nqueens_by_level_reaches:
  assumes lv: "start_level < max_level" "max_level \<le> length ps"
    and sz: "length ps < 2147483648"
    and pre: "\<forall>x \<in> set (take start_level ps). x < 2147483648"
  shows "\<exists>s. nqueens_by_level junk ps start_level max_level f c = search_loop max_level f s \<and>
     store s = c \<and>
     reaches max_level (length ps) (int start_level - 1) [] junk (take start_level ps) f s
       (extensions (length ps) (max_level - start_level) (take start_level ps)) (length ps - 1)"
proof -
  let ?sz = "length ps" and ?pre = "take start_level ps"
  let ?s0 = "\<lparr>pos = ps, index = junk, var_i = 0, var_j = 0, var_k = to_signed (int start_level),
      flag = 0, var_size = to_signed (int (length ps)), stop_sign = 0, store = c, stray = [], wild = []\<rparr>"
  let ?I = "\<lambda>l. if int start_level \<le> l \<and> l < int max_level then 0 else junk l"
  let ?s1 = "?s0\<lparr>index := ?I, var_k := int max_level\<rparr>"
  have st: "start_level < 2147483648" "max_level < 2147483648" "0 < max_level" using lv sz by simp_all
  have "for_init max_level ?s0 = Ret (?s0\<lparr>index := (\<lambda>l. if int start_level \<le> l \<and> l < int max_level then 0 else index ?s0 l),
          var_k := int max_level\<rparr>)"
    using st lv by (intro for_init_result) simp_all
  then have fi: "for_init max_level ?s0 = Ret ?s1" by (simp cong: if_cong)
  let ?s2 = "?s1\<lparr>stop_sign := int start_level - 1, var_k := int start_level,
       var_i := 0, var_j := to_signed (int (ps ! 0))\<rparr>"
  have rs: "restart (?s1\<lparr>stop_sign := to_signed (usub1 start_level),
       var_k := to_signed (int start_level)\<rparr>) = Ret ?s2"
    using st lv by (auto simp: restart_def set_j_def to_signed_usub1)
  have run: "nqueens_by_level junk ps start_level max_level f c = search_loop max_level f ?s2"
    unfolding nqueens_by_level_def Let_def fi using rs by simp
  have len: "length ?pre = start_level" using lv by simp
  have cd: "cand max_level ?sz (int start_level - 1) [] junk ?pre 0 ?s2"
  proof -
    have "?pre \<noteq> [] \<Longrightarrow> to_signed (int (ps ! 0)) = int (?pre ! 0)"
    proof -
      assume ne: "?pre \<noteq> []"
      then have "?pre ! 0 \<in> set ?pre" by (intro nth_mem) simp
      then have "?pre ! 0 < 2147483648" using pre by blast
      moreover have "?pre ! 0 = ps ! 0" using ne by (intro take_eq_nth[OF refl]) simp
      ultimately show ?thesis by simp
    qed
    moreover have "ps \<noteq> []" using lv by auto
    ultimately show ?thesis
      using lv sz pre len by (simp add: cand_def at_level_def)
  qed
  have r: "reaches max_level ?sz (int start_level - 1) [] junk ?pre f ?s2
      (extensions ?sz (max_level - start_level) ?pre) (?sz - 1)"
  proof -
    have "max_level - start_level = Suc (max_level - length ?pre - 1)" using lv by simp
    then show ?thesis
      using level_done[OF cd, of f] len by (simp only: from_col_0)
  qed
  show ?thesis using run r by (intro exI[of _ ?s2]) simp
qed

lemma exhausted_never:
  assumes al: "at_level ml sz (int (length ps) - 1) lg I ps t"
    and ix: "index t (int (length ps)) = int sz - 1"
    and h: "\<forall>m. int sz - 1 \<le> I (int (length ps) - 1 - int m)"
  shows "resume ml f (backtrack ml t) = None"
proof -
  have blk: "in_block ml (var_k t)" using al by (rule at_level_in_block)
  have k: "var_k t = int (length ps)" and vs: "var_size t = int sz" and st: "stop_sign t = int (length ps) - 1"
    and I: "\<forall>l. l < int (length ps) \<longrightarrow> index t l = I l"
    using al by (simp_all add: at_level_def)
  let ?t = "t\<lparr>var_k := int (length ps) - 1, flag := 1\<rparr>"
  have "ascend ml t = ascend ml ?t"
    using blk k vs st ix by (subst ascend.simps) (simp add: Let_def)
  moreover have "ascend ml ?t = None"
  proof (cases "ascend ml ?t")
    case (Some t')
    from ascend_never[OF this] obtain m where "index ?t (var_k ?t - int m) < var_size ?t - 1"
      by blast
    then have "I (int (length ps) - 1 - int m) < int sz - 1" using I vs by simp
    then show ?thesis using h by (simp add: not_less [symmetric])
  qed simp
  ultimately show ?thesis by (simp add: backtrack_def)
qed

lemma nqueens_by_level_result:
  assumes lv: "start_level < max_level" "max_level \<le> length ps"
    and sz: "length ps < 2147483648"
    and pre: "\<forall>x \<in> set (take start_level ps). x < 2147483648"
    and h: "halts junk start_level (length ps)"
  shows "case emit_all f (extensions (length ps) (max_level - start_level) (take start_level ps)) c of
       None \<Rightarrow> nqueens_by_level junk ps start_level max_level f c = None
     | Some c' \<Rightarrow>
         (\<exists>t. nqueens_by_level junk ps start_level max_level f c = Some (Ret t) \<and> store t = c' \<and>
            (start_level = 0 \<longrightarrow> - 1 \<in> set (stray t)))"
proof -
  let ?sz = "length ps" and ?pre = "take start_level ps"
  have len: "length ?pre = start_level" using lv by simp
  from nqueens_by_level_reaches[OF lv sz pre, of junk f c] obtain s2 where
    run: "nqueens_by_level junk ps start_level max_level f c = search_loop max_level f s2"
    and c: "store s2 = c"
    and r: "reaches max_level ?sz (int start_level - 1) [] junk ?pre f s2
      (extensions ?sz (max_level - start_level) ?pre) (?sz - 1)" by blast
  show ?thesis
  proof (cases "emit_all f (extensions ?sz (max_level - start_level) ?pre) c")
    case None
    then show ?thesis using r run c by (simp add: reaches_def)
  next
    case (Some c')
    then obtain t where al: "at_level max_level ?sz (int start_level - 1) [] junk ?pre t"
      and ix: "index t (int (length ?pre)) = int (?sz - 1)" and st': "store t = c'"
      and run': "search_loop max_level f s2 = resume max_level f (backtrack max_level t)"
      using r c by (auto simp: reaches_def)
    from h obtain m where m: "junk (int start_level - 1 - int m) < int ?sz - 1"
      by (auto simp: halts_def)
    have "\<exists>t'. resume max_level f (backtrack max_level t) = Some (Ret t') \<and> store t' = store t \<and>
       (?pre = [] \<longrightarrow> - 1 \<in> set (stray t'))"
    proof (rule exhausted)
      show "at_level max_level ?sz (int (length ?pre) - 1) [] junk ?pre t" using al len by simp
      show "index t (int (length ?pre)) = int ?sz - 1" using ix lv by simp
      show "junk (int (length ?pre) - 1 - int m) < int ?sz - 1" using m len by simp
    qed
    then show ?thesis
      using Some run run' st' lv by auto
  qed
qed


lemma nqueens_by_level_no_return:
  assumes lv: "start_level < max_level" "max_level \<le> length ps"
    and sz: "length ps < 2147483648"
    and pre: "\<forall>x \<in> set (take start_level ps). x < 2147483648"
    and h: "\<not> halts junk start_level (length ps)"
  shows "nqueens_by_level junk ps start_level max_level f c = None"
proof -
  let ?sz = "length ps" and ?pre = "take start_level ps"
  have len: "length ?pre = start_level" using lv by simp
  from nqueens_by_level_reaches[OF lv sz pre, of junk f c] obtain s2 where
    run: "nqueens_by_level junk ps start_level max_level f c = search_loop max_level f s2"
    and c: "store s2 = c"
    and r: "reaches max_level ?sz (int start_level - 1) [] junk ?pre f s2
      (extensions ?sz (max_level - start_level) ?pre) (?sz - 1)" by blast
  show ?thesis
  proof (cases "emit_all f (extensions ?sz (max_level - start_level) ?pre) c")
    case None
    then show ?thesis using r run c by (simp add: reaches_def)
  next
    case (Some c')
    then obtain t where al: "at_level max_level ?sz (int start_level - 1) [] junk ?pre t"
      and ix: "index t (int (length ?pre)) = int (?sz - 1)"
      and run': "search_loop max_level f s2 = resume max_level f (backtrack max_level t)"
      using r c by (auto simp: reaches_def)
    have "resume max_level f (backtrack max_level t) = None"
    proof (rule exhausted_never)
      show "at_level max_level ?sz (int (length ?pre) - 1) [] junk ?pre t" using al len by simp
      show "index t (int (length ?pre)) = int ?sz - 1" using ix lv by simp
      show "\<forall>m. int ?sz - 1 \<le> junk (int (length ?pre) - 1 - int m)"
        using h len by (simp add: halts_def not_less)
    qed
    then show ?thesis using run run' by simp
  qed
qed

section \<open>The enumeration lists the placements, in lexicographic order\<close>

lemma take_Suc_eq_snoc:
  "m < length qs \<Longrightarrow> length ps = m \<Longrightarrow> take (Suc m) qs = ps @ [c] \<longleftrightarrow> take m qs = ps \<and> qs ! m = c"
  by (auto simp: take_Suc_conv_app_nth)

lemma in_extensions:
  "qs \<in> set (extensions sz d ps) \<longleftrightarrow>
     length qs = length ps + d \<and> take (length ps) qs = ps \<and>
     (\<forall>k. length ps \<le> k \<and> k < length qs \<longrightarrow> qs ! k < sz \<and> safe (take k qs) (qs ! k))"
proof (induction d arbitrary: ps)
  case 0
  then show ?case by auto
next
  case (Suc d)
  let ?m = "length ps"
  have "qs \<in> set (extensions sz (Suc d) ps) \<longleftrightarrow>
      (\<exists>c<sz. safe ps c \<and> qs \<in> set (extensions sz d (ps @ [c])))"
    by auto
  also have "\<dots> \<longleftrightarrow> (\<exists>c<sz. safe ps c \<and> length qs = Suc (?m + d) \<and> take (Suc ?m) qs = ps @ [c] \<and>
      (\<forall>k. Suc ?m \<le> k \<and> k < length qs \<longrightarrow> qs ! k < sz \<and> safe (take k qs) (qs ! k)))"
    by (simp add: Suc.IH)
  also have "\<dots> \<longleftrightarrow> (\<exists>c<sz. safe ps c \<and> length qs = Suc (?m + d) \<and> take ?m qs = ps \<and> qs ! ?m = c \<and>
      (\<forall>k. Suc ?m \<le> k \<and> k < length qs \<longrightarrow> qs ! k < sz \<and> safe (take k qs) (qs ! k)))"
  proof -
    have "take (Suc ?m) qs = ps @ [c] \<longleftrightarrow> take ?m qs = ps \<and> qs ! ?m = c"
      if "length qs = Suc (?m + d)" for c
      using that by (intro take_Suc_eq_snoc) simp_all
    then show ?thesis by blast
  qed
  also have "\<dots> \<longleftrightarrow> length qs = ?m + Suc d \<and> take ?m qs = ps \<and>
     (\<forall>k. ?m \<le> k \<and> k < length qs \<longrightarrow> qs ! k < sz \<and> safe (take k qs) (qs ! k))"
    (is "?L \<longleftrightarrow> ?R")
  proof
    assume ?L
    then obtain c where c: "c < sz" "safe ps c" "length qs = Suc (?m + d)" "take ?m qs = ps" "qs ! ?m = c"
      and rest: "\<forall>k. Suc ?m \<le> k \<and> k < length qs \<longrightarrow> qs ! k < sz \<and> safe (take k qs) (qs ! k)"
      by blast
    have "qs ! k < sz \<and> safe (take k qs) (qs ! k)" if "?m \<le> k" "k < length qs" for k
    proof (cases "k = ?m")
      case True then show ?thesis using c by simp
    next
      case False then show ?thesis using that rest by simp
    qed
    then show ?R using c by simp
  next
    assume r: ?R
    then have "\<forall>k. ?m \<le> k \<and> k < length qs \<longrightarrow> qs ! k < sz \<and> safe (take k qs) (qs ! k)"
      by blast
    then have "?m \<le> ?m \<and> ?m < length qs \<longrightarrow> qs ! ?m < sz \<and> safe (take ?m qs) (qs ! ?m)"
      by (rule spec)
    then have "qs ! ?m < sz \<and> safe (take ?m qs) (qs ! ?m)" using r by simp
    moreover have "take ?m qs = ps" using r by simp
    ultimately have "qs ! ?m < sz \<and> safe ps (qs ! ?m)" by simp
    then show ?L using r by auto
  qed
  finally show ?case .
qed

lemma safe_take:
  "k < length qs \<Longrightarrow> safe (take k qs) (qs ! k) \<longleftrightarrow>
     (\<forall>i<k. qs ! i \<noteq> qs ! k \<and> \<bar>int i - int k\<bar> \<noteq> \<bar>int (qs ! i) - int (qs ! k)\<bar>)"
  by (auto simp: safe_def)

lemma set_extensions_placements: "set (extensions n n []) = placements n"
proof -
  have "qs \<in> set (extensions n n []) \<longleftrightarrow> qs \<in> placements n" for qs
  proof -
    have "qs \<in> set (extensions n n []) \<longleftrightarrow>
        length qs = n \<and> (\<forall>k<n. qs ! k < n \<and> safe (take k qs) (qs ! k))"
      by (auto simp: in_extensions)
    also have "\<dots> \<longleftrightarrow> length qs = n \<and> (\<forall>k<n. qs ! k < n \<and>
        (\<forall>i<k. qs ! i \<noteq> qs ! k \<and> \<bar>int i - int k\<bar> \<noteq> \<bar>int (qs ! i) - int (qs ! k)\<bar>))"
      using safe_take[of _ qs] by auto
    also have "\<dots> \<longleftrightarrow> qs \<in> placements n"
      unfolding placements_def by auto
    finally show ?thesis .
  qed
  then show ?thesis by blast
qed

lemma sorted_wrt_concat_map:
  assumes "\<And>c. c \<in> set cs \<Longrightarrow> sorted_wrt R (F c)"
    and "sorted_wrt (\<lambda>c c'. \<forall>x \<in> set (F c). \<forall>y \<in> set (F c'). R x y) cs"
  shows "sorted_wrt R (concat (map F cs))"
  using assms by (induction cs) (auto simp: sorted_wrt_append)

lemma lex_less_Cons_same: "lex_less xs ys \<Longrightarrow> lex_less (c # xs) (c # ys)"
  by (simp add: lex_less_def)

lemma lex_less_Cons_less: "c < c' \<Longrightarrow> lex_less (c # xs) (c' # ys)"
  by (simp add: lex_less_def)

lemma drop_extension:
  assumes "qs \<in> set (extensions sz d (ps @ [c]))"
  shows "drop (length ps) qs = c # drop (Suc (length ps)) qs"
proof -
  have l: "length ps < length qs" and t: "take (Suc (length ps)) qs = ps @ [c]"
    using assms by (simp_all add: in_extensions)
  then have "qs ! length ps = c" using take_Suc_eq_snoc[of "length ps" qs ps c] by simp
  then show ?thesis using Cons_nth_drop_Suc[OF l] by simp
qed

lemma sorted_extensions:
  "sorted_wrt (\<lambda>x y. lex_less (drop (length ps) x) (drop (length ps) y)) (extensions sz d ps)"
proof (induction d arbitrary: ps)
  case 0
  then show ?case by simp
next
  case (Suc d)
  let ?R = "\<lambda>x y. lex_less (drop (length ps) x) (drop (length ps) y)"
  let ?F = "\<lambda>c. if safe ps c then extensions sz d (ps @ [c]) else []"
  have "sorted_wrt ?R (concat (map ?F [0..<sz]))"
  proof (rule sorted_wrt_concat_map)
    fix c
    have "sorted_wrt ?R (extensions sz d (ps @ [c]))"
    proof (rule sorted_wrt_mono_rel[OF _ Suc.IH[of "ps @ [c]"]])
      fix x y
      assume "x \<in> set (extensions sz d (ps @ [c]))" "y \<in> set (extensions sz d (ps @ [c]))"
        and "lex_less (drop (length (ps @ [c])) x) (drop (length (ps @ [c])) y)"
      then show "?R x y"
        by (simp add: drop_extension lex_less_Cons_same)
    qed
    then show "sorted_wrt ?R (?F c)" by simp
  next
    have "\<forall>x \<in> set (?F c). \<forall>y \<in> set (?F c'). ?R x y" if "c < c'" for c c'
      using that by (auto simp: drop_extension lex_less_Cons_less)
    then show "sorted_wrt (\<lambda>c c'. \<forall>x \<in> set (?F c). \<forall>y \<in> set (?F c'). ?R x y) [0..<sz]"
      by (simp add: sorted_wrt_iff_nth_less)
  qed
  then show ?case by simp
qed

lemma lex_less_irrefl: "\<not> lex_less xs xs"
  by (simp add: lex_less_def lexord_irreflexive)

lemma distinct_extensions: "distinct (extensions sz d ps)"
proof -
  have "sorted_wrt (\<lambda>x y. x \<noteq> y) (extensions sz d ps)"
    by (rule sorted_wrt_mono_rel[OF _ sorted_extensions[of ps sz d]]) (auto simp: lex_less_irrefl)
  then show ?thesis by (simp add: distinct_conv_nth sorted_wrt_iff_nth_less) (metis nat_neq_iff)
qed

lemma length_extensions_card: "length (extensions n n []) = card (placements n)"
  using distinct_card[OF distinct_extensions, of n n "[]"] by (simp add: set_extensions_placements)

lemma emit_all_add: "emit_all add_solution_callback xs c = Some (c @ concat xs)"
  by (induction xs arbitrary: c) (simp_all add: add_solution_callback_def add_solution_def)

lemma emit_all_log: "emit_all log_callback xs c = Some (c @ xs)"
  by (induction xs arbitrary: c) (simp_all add: log_callback_def)

lemma length_concat_extensions:
  "length (concat (extensions sz d ps)) = (length ps + d) * length (extensions sz d ps)"
proof -
  have "\<forall>x \<in> set (extensions sz d ps). length x = length ps + d"
    by (simp add: in_extensions)
  then have "map length (extensions sz d ps) = replicate (length (extensions sz d ps)) (length ps + d)"
    by (simp add: map_replicate_const[symmetric] cong: map_cong)
  then show ?thesis by (simp add: length_concat sum_list_replicate)
qed

section \<open>The sequential solver on the model\<close>

lemma nqueens_zero: "nqueens junk 0 sols = Some (Fault ([], sols))"
  by (simp add: nqueens_def nqueens_by_level_def for_init.simps in_block_def to_signed_def
      to_unsigned_def)

lemma nqueens_returns_all:
  assumes "1 \<le> n" "n < 2147483648" "halts junk 0 n"
  shows "nqueens junk n sols = Some (Ret (sols @ concat (extensions n n []), []))"
proof -
  have "case emit_all add_solution_callback (extensions (length (replicate n (0::nat))) (n - 0)
          (take 0 (replicate n 0))) sols of
       None \<Rightarrow> nqueens_by_level junk (replicate n 0) 0 n add_solution_callback sols = None
     | Some c' \<Rightarrow>
         (\<exists>t. nqueens_by_level junk (replicate n 0) 0 n add_solution_callback sols = Some (Ret t) \<and>
            store t = c' \<and> ((0::nat) = 0 \<longrightarrow> - 1 \<in> set (stray t)))"
    using assms by (intro nqueens_by_level_result) simp_all
  then show ?thesis
    by (auto simp: emit_all_add nqueens_def)
qed

lemma nqueens_never_returns:
  assumes "1 \<le> n" "n < 2147483648" "\<not> halts junk 0 n"
  shows "nqueens junk n sols = None"
proof -
  have "nqueens_by_level junk (replicate n 0) 0 n add_solution_callback sols = None"
    using assms by (intro nqueens_by_level_no_return) simp_all
  then show ?thesis by (simp add: nqueens_def)
qed

lemma nqueens_cases:
  assumes "n < 2147483648"
  shows "nqueens junk n sols =
     (if n = 0 then Some (Fault ([], sols))
      else if halts junk 0 n then Some (Ret (sols @ concat (extensions n n []), []))
      else None)"
  using assms nqueens_zero nqueens_returns_all[of n junk sols] nqueens_never_returns[of n junk sols]
  by auto

lemma nqueens_one_never_returns: "nqueens (\<lambda>_. 0) 1 [] = None"
  by (rule nqueens_never_returns) (simp_all add: halts_def)

section \<open>The protocol under its contract\<close>

lemma chunks_Nil [simp]: "chunks n [] = []"
  by (simp add: chunks.simps)

lemma chunks_concat:
  assumes "0 < n" "\<forall>x \<in> set xss. length x = n"
  shows "chunks n (concat xss) = xss"
  using assms(2)
proof (induction xss)
  case Nil
  then show ?case by simp
next
  case (Cons x xss)
  then have "x \<noteq> []" using assms(1) by auto
  then have "chunks n (x @ concat xss) = take n (x @ concat xss) # chunks n (drop n (x @ concat xss))"
    using assms(1) by (subst chunks.simps) simp
  then show ?case using Cons by simp
qed

lemma extensions_compose:
  "set (extensions sz (d1 + d2) ps) = (\<Union>u \<in> set (extensions sz d1 ps). set (extensions sz d2 u))"
  by (induction d1 arbitrary: ps) auto

lemma extensions_length: "u \<in> set (extensions sz d ps) \<Longrightarrow> length u = length ps + d"
  by (simp add: in_extensions)

lemma extensions_bound:
  assumes "u \<in> set (extensions sz d []) "
  shows "\<forall>x \<in> set u. x < sz"
proof
  fix x assume "x \<in> set u"
  then obtain i where "i < length u" "u ! i = x" by (auto simp: in_set_conv_nth)
  then show "x < sz" using assms by (auto simp: in_extensions)
qed

lemma replay_append:
  "replay (tr @ tr') st = (case replay tr st of None \<Rightarrow> None | Some st' \<Rightarrow> replay tr' st')"
  by (induction tr arbitrary: st) (auto split: option.splits)

lemma terms_append: "terms (tr @ tr') = terms tr @ terms tr'"
  by (induction tr rule: terms.induct) simp_all

lemma terms_Terminate: "terms (map Terminate ws) = ws"
  by (induction ws) simp_all

lemma replay_Terminate: "replay (map Terminate ws) (0, busy) = Some (0, busy)"
  by (induction ws) simp_all

lemma emit_all_invariant:
  assumes step: "\<And>x c pre. Q pre c \<Longrightarrow> x \<in> set xs \<Longrightarrow> \<exists>c'. f x c = Some c' \<and> Q (pre @ [x]) c'"
    and "Q pre c"
  shows "\<exists>c'. emit_all f xs c = Some c' \<and> Q (pre @ xs) c'"
  using assms
proof (induction xs arbitrary: pre c)
  case Nil
  then show ?case by simp
next
  case (Cons x xs)
  from Cons.prems(1)[OF Cons.prems(2), of x] obtain c1 where
    c1: "f x c = Some c1" "Q (pre @ [x]) c1" by auto
  have "\<exists>c'. emit_all f xs c1 = Some c' \<and> Q ((pre @ [x]) @ xs) c'"
  proof (rule Cons.IH)
    show "\<exists>c'. f y c = Some c' \<and> Q (p @ [y]) c'" if "Q p c" "y \<in> set xs" for y c p
      using Cons.prems(1)[OF that(1), of y] that(2) by simp
  qed (rule c1(2))
  then show ?case using c1(1) by simp
qed

lemma emit_all_worker: "emit_all worker_solution_func xs c = Some (c @ concat xs)"
  by (induction xs arbitrary: c) (simp_all add: worker_solution_func_def add_solution_def)

lemma worker_run:
  assumes "k < n" "n < 2147483648" "length u = k" "\<forall>x \<in> set u. x < 2147483648"
    "length buf = n" "halts junk k n"
  shows "\<exists>t. nqueens_by_level junk (u @ drop (length u) buf) k n worker_solution_func [] = Some (Ret t)
     \<and> store t = batch_of n k u"
proof -
  let ?ps = "u @ drop (length u) buf"
  have len: "length ?ps = n" using assms by simp
  have tk: "take k ?ps = u" using assms by simp
  have "case emit_all worker_solution_func (extensions (length ?ps) (n - k) (take k ?ps)) [] of
       None \<Rightarrow> nqueens_by_level junk ?ps k n worker_solution_func [] = None
     | Some c' \<Rightarrow>
         (\<exists>t. nqueens_by_level junk ?ps k n worker_solution_func [] = Some (Ret t) \<and> store t = c' \<and>
            (k = 0 \<longrightarrow> - 1 \<in> set (stray t)))"
  proof (rule nqueens_by_level_result)
    show "\<forall>x \<in> set (take k ?ps). x < 2147483648" unfolding tk using assms(4) .
    show "halts junk k (length ?ps)" unfolding len using assms(6) .
  qed (use assms len in simp_all)
  then show ?thesis
    unfolding len tk by (auto simp: emit_all_worker batch_of_def)
qed

lemma worker_work_result:
  assumes "k < n" "n < 2147483648" "length u = k" "\<forall>x \<in> set u. x < 2147483648"
    "length (wpos wd w) = n" "halts (wjunk e u) k n"
  shows "worker_work e n k w u wd =
     wd\<lparr>wpos := (wpos wd)(w := u @ drop (length u) (wpos wd w)),
        inbox := (inbox wd)(w := inbox wd w @ [report_of n k u])\<rparr>"
proof -
  from worker_run[OF assms(1-4) assms(5) assms(6)] obtain t where
    "nqueens_by_level (wjunk e u) (u @ drop (length u) (wpos wd w)) k n worker_solution_func [] = Some (Ret t)"
    "store t = batch_of n k u" by blast
  then show ?thesis
    using assms(1,3) by (simp add: worker_work_def Let_def report_of_def)
qed

lemma busy_set_finite: "finite (busy_set W ws)"
proof -
  have "busy_set W ws \<subseteq> {1..W}" by (auto simp: busy_set_def)
  then show ?thesis by (rule finite_subset) simp
qed

lemma busy_set_card: "card (busy_set W ws) \<le> W"
proof -
  have "busy_set W ws \<subseteq> {1..W}" by (auto simp: busy_set_def)
  then have "card (busy_set W ws) \<le> card {1..W}" by (intro card_mono) simp_all
  then show ?thesis by simp
qed

lemma busy_set_idle: "busy_set W (ws(w := Idle)) = busy_set W ws - {w}"
  by (auto simp: busy_set_def is_busy_def)

lemma busy_set_busy: "1 \<le> w \<Longrightarrow> w \<le> W \<Longrightarrow> busy_set W (ws(w := Busy u)) = insert w (busy_set W ws)"
  by (auto simp: busy_set_def is_busy_def)

lemma inbox_of_empty [simp]: "inbox_of n k st = [] \<longleftrightarrow> st = Idle"
  by (cases st) (simp_all add: inbox_of_def)

lemma recieve_solution_pick:
  assumes ib: "\<And>w. inbox wd w = (if 1 \<le> w \<and> w \<le> W then inbox_of n k (ws w) else [])"
    and some: "\<exists>w. 1 \<le> w \<and> w \<le> W \<and> ws w \<noteq> Idle"
  shows "\<exists>w. 1 \<le> w \<and> w \<le> W \<and> ws w \<noteq> Idle \<and>
     recieve_solution e W wd =
       Some (w, take_report w wd)"
proof -
  define pend where "pend = filter (\<lambda>w. inbox wd w \<noteq> []) [1..<Suc W]"
  have sp: "set pend = {w. 1 \<le> w \<and> w \<le> W \<and> ws w \<noteq> Idle}"
    unfolding pend_def using ib by auto
  from some obtain w0 where "1 \<le> w0 \<and> w0 \<le> W \<and> ws w0 \<noteq> Idle" by blast
  then have "w0 \<in> set pend" unfolding sp by simp
  then have lp: "0 < length pend" by (rule length_pos_if_in_set)
  then have ne: "pend \<noteq> []" by simp
  define w where "w = pend ! (sched e (received wd) mod length pend)"
  from lp have "sched e (received wd) mod length pend < length pend" by (rule mod_less_divisor)
  then have "w \<in> set pend" unfolding w_def by (rule nth_mem)
  then have w: "1 \<le> w \<and> w \<le> W \<and> ws w \<noteq> Idle" unfolding sp by simp
  have "recieve_solution e W wd =
       Some (w, take_report w wd)"
    unfolding recieve_solution_def pend_def[symmetric] Let_def w_def[symmetric] using ne by simp
  then show ?thesis using w by blast
qed

lemma recieve_solution_step:
  assumes inv: "minv W n k wd ws disp fin" and W: "W < 2147483648"
    and some: "\<exists>w. 1 \<le> w \<and> w \<le> W \<and> ws w \<noteq> Idle"
  shows "\<exists>w wd'. recieve_solution e W wd = Some (w, wd') \<and> 1 \<le> w \<and> w \<le> W \<and> ws w \<noteq> Idle \<and>
     wpos wd' = wpos wd \<and>
     minv W n k wd' (ws(w := Idle)) disp (fin @ (case ws w of Busy u \<Rightarrow> [u] | _ \<Rightarrow> []))"
proof -
  have ib: "\<And>w. inbox wd w = (if 1 \<le> w \<and> w \<le> W then inbox_of n k (ws w) else [])"
    and so: "solutions wd = concat (map (batch_of n k) fin)"
    and ac: "active_workers wd = int (card (busy_set W ws))"
    and wp: "\<forall>w. length (wpos wd w) = n"
    and di: "set disp = set fin \<union> {u. \<exists>w. 1 \<le> w \<and> w \<le> W \<and> ws w = Busy u}"
    and rp: "replay (trace wd) (0, \<lambda>_. False) = Some (active_workers wd, \<lambda>w. w \<in> busy_set W ws)"
    and tm: "terms (trace wd) = []"
    using inv by (simp_all add: minv_def)
  from recieve_solution_pick[of wd W n k ws e, OF ib some] obtain w where
    w: "1 \<le> w" "w \<le> W" "ws w \<noteq> Idle"
    and rs: "recieve_solution e W wd =
       Some (w, take_report w wd)"
    by blast
  have ibw: "inbox wd w = inbox_of n k (ws w)" using ib w by simp
  let ?fin = "fin @ (case ws w of Busy u \<Rightarrow> [u] | _ \<Rightarrow> [])"
  let ?ws = "ws(w := Idle)"
  show ?thesis
  proof (cases "ws w")
    case Idle
    then show ?thesis using w by simp
  next
    case Fresh
    let ?wd = "wd\<lparr>inbox := (inbox wd)(w := []), received := received wd + 1,
        trace := trace wd @ [Ready w initial_ready (active_workers wd)]\<rparr>"
    have r: "recieve_solution e W wd = Some (w, ?wd)"
      unfolding rs using ibw Fresh
      by (simp add: take_report_def Let_def inbox_of_def initial_ready_def solution_ready_def
          no_solution_ready_def)
    have nb: "w \<notin> busy_set W ws" using Fresh by (simp add: busy_set_def is_busy_def)
    then have bs: "busy_set W ?ws = busy_set W ws" by (simp add: busy_set_idle)
    have "minv W n k ?wd ?ws disp ?fin"
      unfolding minv_def
    proof (intro conjI allI)
      fix w' show "inbox ?wd w' = (if 1 \<le> w' \<and> w' \<le> W then inbox_of n k (?ws w') else [])"
        using ib[of w'] by (simp add: inbox_of_def)
      show "solutions ?wd = concat (map (batch_of n k) ?fin)" using so Fresh by simp
      show "active_workers ?wd = int (card (busy_set W ?ws))" using ac bs by simp
      show "length (wpos ?wd w') = n" using wp by simp
      have "(?ws w' = Busy x) = (ws w' = Busy x)" for w' x using Fresh by simp
      then show "set disp = set ?fin \<union> {u. \<exists>w'. 1 \<le> w' \<and> w' \<le> W \<and> ?ws w' = Busy u}"
        using di Fresh by simp
      have "replay_event (Ready w initial_ready (active_workers wd)) (active_workers wd, \<lambda>w. w \<in> busy_set W ws)
          = Some (active_workers wd, \<lambda>w. w \<in> busy_set W ?ws)"
        using nb bs by simp
      then show "replay (trace ?wd) (0, \<lambda>_. False) = Some (active_workers ?wd, \<lambda>w. w \<in> busy_set W ?ws)"
        using rp by (simp add: replay_append)
      show "terms (trace ?wd) = []" using tm by (simp add: terms_append)
    qed
    then show ?thesis using r w by (intro exI[of _ w] exI[of _ ?wd]) simp
  next
    case (Busy u)
    have inb: "w \<in> busy_set W ws" using Busy w by (simp add: busy_set_def is_busy_def)
    have bs: "busy_set W ?ws = busy_set W ws - {w}" by (rule busy_set_idle)
    have cd: "card (busy_set W ?ws) = card (busy_set W ws) - 1"
      unfolding bs using inb busy_set_finite by (simp add: card_Diff_singleton)
    have pos: "0 < card (busy_set W ws)"
      using inb busy_set_finite[of W ws] by (auto simp: card_gt_0_iff)
    have le: "card (busy_set W ws) \<le> W" by (rule busy_set_card)
    have md: "(active_workers wd - 1) mod 4294967296 = int (card (busy_set W ?ws))"
      using ac cd pos le W by simp
    let ?a = "int (card (busy_set W ?ws))"
    let ?wd = "wd\<lparr>inbox := (inbox wd)(w := []), received := received wd + 1,
        solutions := solutions wd @ batch_of n k u, active_workers := ?a,
        trace := trace wd @ [Ready w (fst (report_of n k u)) ?a]\<rparr>"
    have r: "recieve_solution e W wd = Some (w, ?wd)"
    proof (cases "batch_of n k u = []")
      case True
      then show ?thesis
        unfolding rs using ibw Busy md
        by (simp add: take_report_def Let_def inbox_of_def report_of_def initial_ready_def
            solution_ready_def no_solution_ready_def remove_worker_def)
    next
      case False
      then show ?thesis
        unfolding rs using ibw Busy md
        by (simp add: take_report_def Let_def inbox_of_def report_of_def initial_ready_def
            solution_ready_def no_solution_ready_def remove_worker_def add_solution_def)
    qed
    have "minv W n k ?wd ?ws disp ?fin"
      unfolding minv_def
    proof (intro conjI allI)
      fix w' show "inbox ?wd w' = (if 1 \<le> w' \<and> w' \<le> W then inbox_of n k (?ws w') else [])"
        using ib[of w'] by (simp add: inbox_of_def)
      show "solutions ?wd = concat (map (batch_of n k) ?fin)" using so Busy by simp
      show "active_workers ?wd = int (card (busy_set W ?ws))" by simp
      show "length (wpos ?wd w') = n" using wp by simp
      define B where "B = {x. \<exists>w'. 1 \<le> w' \<and> w' \<le> W \<and> ws w' = Busy x}"
      define B' where "B' = {x. \<exists>w'. 1 \<le> w' \<and> w' \<le> W \<and> ?ws w' = Busy x}"
      have "B = insert u B'"
        unfolding B_def B'_def using Busy w by (auto; metis wstate.inject)
      moreover have "set disp = set fin \<union> B" using di by (simp add: B_def)
      ultimately have "set disp = set ?fin \<union> B'" using Busy by auto
      then show "set disp = set ?fin \<union> {u. \<exists>w'. 1 \<le> w' \<and> w' \<le> W \<and> ?ws w' = Busy u}"
        by (simp only: B'_def)
      have "replay_event (Ready w (fst (report_of n k u)) ?a) (active_workers wd, \<lambda>w. w \<in> busy_set W ws)
          = Some (?a, \<lambda>w. w \<in> busy_set W ?ws)"
        using inb ac cd pos bs
        by (auto simp: report_of_def initial_ready_def solution_ready_def no_solution_ready_def
            fun_eq_iff)
      then show "replay (trace ?wd) (0, \<lambda>_. False) = Some (active_workers ?wd, \<lambda>w. w \<in> busy_set W ?ws)"
        using rp by (simp add: replay_append)
      show "terms (trace ?wd) = []" using tm by (simp add: terms_append)
    qed
    then show ?thesis using r w by (intro exI[of _ w] exI[of _ ?wd]) simp
  qed
qed

lemma master_solution_func_step:
  assumes inv: "minv W n k wd ws disp fin"
    and none_idle: "\<forall>w. 1 \<le> w \<and> w \<le> W \<longrightarrow> ws w \<noteq> Idle"
    and W: "1 \<le> W" "W < 2147483648"
    and nk: "k < n" "n < 2147483648"
    and u: "length u = k" "\<forall>x \<in> set u. x < 2147483648"
    and h: "halts (wjunk e u) k n"
  shows "\<exists>wd' ws' fin'. master_solution_func e W n k u wd = Some wd' \<and>
     minv W n k wd' ws' (disp @ [u]) fin' \<and> (\<forall>w. 1 \<le> w \<and> w \<le> W \<longrightarrow> ws' w \<noteq> Idle)"
proof -
  have some: "\<exists>w. 1 \<le> w \<and> w \<le> W \<and> ws w \<noteq> Idle"
    using none_idle W(1) by (intro exI[of _ 1]) simp
  from recieve_solution_step[OF inv W(2) some, of e] obtain w wd1 where
    r: "recieve_solution e W wd = Some (w, wd1)" and w: "1 \<le> w" "w \<le> W"
    and inv1: "minv W n k wd1 (ws(w := Idle)) disp (fin @ (case ws w of Busy u \<Rightarrow> [u] | _ \<Rightarrow> []))"
    by blast
  let ?ws1 = "ws(w := Idle)" and ?fin = "fin @ (case ws w of Busy u \<Rightarrow> [u] | _ \<Rightarrow> [])"
  have ib: "\<And>w'. inbox wd1 w' = (if 1 \<le> w' \<and> w' \<le> W then inbox_of n k (?ws1 w') else [])"
    and so: "solutions wd1 = concat (map (batch_of n k) ?fin)"
    and ac: "active_workers wd1 = int (card (busy_set W ?ws1))"
    and wp: "\<forall>w. length (wpos wd1 w) = n"
    and di: "set disp = set ?fin \<union> {u. \<exists>w'. 1 \<le> w' \<and> w' \<le> W \<and> ?ws1 w' = Busy u}"
    and rp: "replay (trace wd1) (0, \<lambda>_. False) = Some (active_workers wd1, \<lambda>w. w \<in> busy_set W ?ws1)"
    and tm: "terms (trace wd1) = []"
    using inv1 by (simp_all add: minv_def)
  have ibw: "inbox wd1 w = []" using ib[of w] w by (simp add: inbox_of_def)
  have ww: "worker_work e n k w u wd1 =
     wd1\<lparr>wpos := (wpos wd1)(w := u @ drop (length u) (wpos wd1 w)),
        inbox := (inbox wd1)(w := [report_of n k u])\<rparr>"
    using worker_work_result[OF nk u _ h, of wd1 w] wp ibw by simp
  let ?ws = "ws(w := Busy u)"
  have bs: "busy_set W ?ws = insert w (busy_set W ?ws1)"
    using busy_set_busy[OF w, of ?ws1 u] by simp
  have nb: "w \<notin> busy_set W ?ws1" by (simp add: busy_set_def is_busy_def)
  have cd: "card (busy_set W ?ws) = card (busy_set W ?ws1) + 1"
    unfolding bs using nb busy_set_finite by simp
  have le: "card (busy_set W ?ws) \<le> W" by (rule busy_set_card)
  have md: "(active_workers wd1 + 1) mod 4294967296 = int (card (busy_set W ?ws))"
    using ac cd le W(2) by simp
  let ?a = "int (card (busy_set W ?ws))"
  let ?wd = "wd1\<lparr>wpos := (wpos wd1)(w := u @ drop (length u) (wpos wd1 w)),
        inbox := (inbox wd1)(w := [report_of n k u]), active_workers := ?a,
        trace := trace wd1 @ [Work w u ?a]\<rparr>"
  have m: "master_solution_func e W n k u wd = Some ?wd"
    using r ww md by (simp add: master_solution_func_def add_worker_def Let_def)
  have "minv W n k ?wd ?ws (disp @ [u]) ?fin"
    unfolding minv_def
  proof (intro conjI allI)
    fix w' show "inbox ?wd w' = (if 1 \<le> w' \<and> w' \<le> W then inbox_of n k (?ws w') else [])"
      using ib[of w'] w by (simp add: inbox_of_def)
    show "solutions ?wd = concat (map (batch_of n k) ?fin)" using so by simp
    show "active_workers ?wd = int (card (busy_set W ?ws))" by simp
    show "length (wpos ?wd w') = n" using wp u(1) nk(1) by simp
    define B where "B = {x. \<exists>w'. 1 \<le> w' \<and> w' \<le> W \<and> ?ws w' = Busy x}"
    define B' where "B' = {x. \<exists>w'. 1 \<le> w' \<and> w' \<le> W \<and> ?ws1 w' = Busy x}"
    have "B = insert u B'"
      unfolding B_def B'_def using w by (auto split: if_splits)
    moreover have "set disp = set ?fin \<union> B'" using di by (simp only: B'_def)
    ultimately have "set (disp @ [u]) = set ?fin \<union> B" by auto
    then show "set (disp @ [u]) = set ?fin \<union> {u. \<exists>w'. 1 \<le> w' \<and> w' \<le> W \<and> ?ws w' = Busy u}"
      by (simp only: B_def)
    have "replay_event (Work w u ?a) (active_workers wd1, \<lambda>w. w \<in> busy_set W ?ws1)
        = Some (?a, \<lambda>w. w \<in> busy_set W ?ws)"
      using nb ac cd bs by (auto simp: fun_eq_iff)
    then show "replay (trace ?wd) (0, \<lambda>_. False) = Some (active_workers ?wd, \<lambda>w. w \<in> busy_set W ?ws)"
      using rp by (simp add: replay_append)
    show "terms (trace ?wd) = []" using tm by (simp add: terms_append)
  qed
  moreover have "\<forall>w'. 1 \<le> w' \<and> w' \<le> W \<longrightarrow> ?ws w' \<noteq> Idle"
    using none_idle by simp
  ultimately show ?thesis using m by blast
qed

lemma start_invariant:
  "minv W n k (initialize_workers (distribute_parameters n k (start_world W n))) (\<lambda>_. Fresh) [] []"
proof -
  have "busy_set W (\<lambda>_. Fresh) = {}" by (simp add: busy_set_def is_busy_def)
  then show ?thesis
    by (simp add: minv_def initialize_workers_def distribute_parameters_def start_world_def
        inbox_of_def)
qed

lemma dispatch_all:
  assumes inv: "minv W n k wd ws [] fin"
    and none_idle: "\<forall>w. 1 \<le> w \<and> w \<le> W \<longrightarrow> ws w \<noteq> Idle"
    and W: "1 \<le> W" "W < 2147483648"
    and nk: "k < n" "n < 2147483648"
    and h: "\<forall>u. halts (wjunk e u) k n"
  shows "\<exists>wd' ws' fin'. emit_all (master_solution_func e W n k) (extensions n k []) wd = Some wd' \<and>
     minv W n k wd' ws' (extensions n k []) fin'"
proof -
  let ?Q = "\<lambda>pre wd. \<exists>ws fin. minv W n k wd ws pre fin \<and> (\<forall>w. 1 \<le> w \<and> w \<le> W \<longrightarrow> ws w \<noteq> Idle)"
  have "\<exists>c'. emit_all (master_solution_func e W n k) (extensions n k []) wd = Some c' \<and>
      ?Q ([] @ extensions n k []) c'"
  proof (rule emit_all_invariant[where Q = ?Q])
    show "?Q [] wd" using inv none_idle by blast
  next
    fix x c pre
    assume q: "?Q pre c" and x: "x \<in> set (extensions n k [])"
    then obtain ws0 fin0 where i0: "minv W n k c ws0 pre fin0"
      and n0: "\<forall>w. 1 \<le> w \<and> w \<le> W \<longrightarrow> ws0 w \<noteq> Idle" by blast
    have lx: "length x = k" using extensions_length[OF x] by simp
    have "\<forall>y \<in> set x. y < n" using x by (rule extensions_bound)
    then have bx: "\<forall>y \<in> set x. y < 2147483648" using nk(2) by auto
    have hx: "halts (wjunk e x) k n" using h by simp
    from master_solution_func_step[OF i0 n0 W nk lx bx hx]
    show "\<exists>c'. master_solution_func e W n k x c = Some c' \<and> ?Q (pre @ [x]) c'" by blast
  qed
  then show ?thesis by auto
qed

lemma drain_all:
  assumes inv: "minv W n k wd ws disp fin" and W: "W < 2147483648"
  shows "\<exists>wd' ws' fin'. drain e W wd = Some wd' \<and> minv W n k wd' ws' disp fin' \<and>
     active_workers wd' = 0"
  using inv
proof (induction "card {w. 1 \<le> w \<and> w \<le> W \<and> ws w \<noteq> Idle}" arbitrary: wd ws fin rule: less_induct)
  case less
  have ac: "active_workers wd = int (card (busy_set W ws))"
    using less.prems by (simp add: minv_def)
  show ?case
  proof (cases "active_workers wd > 0")
    case False
    then have "active_workers wd = 0" using ac by simp
    moreover have "drain e W wd = Some wd" using False by (subst drain.simps) simp
    ultimately show ?thesis using less.prems by blast
  next
    case True
    then have "busy_set W ws \<noteq> {}" using ac by auto
    then obtain w0 where "w0 \<in> busy_set W ws" by blast
    then have some: "\<exists>w. 1 \<le> w \<and> w \<le> W \<and> ws w \<noteq> Idle"
      by (auto simp: busy_set_def is_busy_def)
    from recieve_solution_step[OF less.prems W some, of e] obtain w wd1 where
      r: "recieve_solution e W wd = Some (w, wd1)" and w: "1 \<le> w" "w \<le> W" "ws w \<noteq> Idle"
      and inv1: "minv W n k wd1 (ws(w := Idle)) disp (fin @ (case ws w of Busy u \<Rightarrow> [u] | _ \<Rightarrow> []))"
      by blast
    have fin: "finite {w. 1 \<le> w \<and> w \<le> W \<and> ws w \<noteq> Idle}"
      by (rule finite_subset[of _ "{1..W}"]) auto
    define P where "P = {w. 1 \<le> w \<and> w \<le> W \<and> ws w \<noteq> Idle}"
    have fin: "finite P" unfolding P_def
      by (rule finite_subset[of _ "{1..W}"]) auto
    have "{w'. 1 \<le> w' \<and> w' \<le> W \<and> (ws(w := Idle)) w' \<noteq> Idle} = P - {w}"
      unfolding P_def by auto
    moreover have "w \<in> P" unfolding P_def using w by simp
    then have "card (P - {w}) < card P" using fin by (rule card_Diff1_less[rotated])
    ultimately have "card {w'. 1 \<le> w' \<and> w' \<le> W \<and> (ws(w := Idle)) w' \<noteq> Idle} <
        card {w. 1 \<le> w \<and> w \<le> W \<and> ws w \<noteq> Idle}"
      unfolding P_def by simp
    from less.hyps[OF this inv1] obtain wd' ws' fin' where
      "drain e W wd1 = Some wd'" "minv W n k wd' ws' disp fin'" "active_workers wd' = 0" by blast
    moreover have "drain e W wd = drain e W wd1"
      using True r by (subst drain.simps) simp
    ultimately show ?thesis by auto
  qed
qed

lemma master_main_result:
  assumes W: "1 \<le> W" "W < 2147483648"
    and nk: "0 < k" "k < n" "n < 2147483648"
    and hm: "halts (mjunk e) 0 n"
    and hw: "\<forall>u. halts (wjunk e u) k n"
  shows "\<exists>wd fin. master_main e W n k = Some (Ret (concat (map (batch_of n k) fin), wd)) \<and>
     set fin = set (extensions n k []) \<and> active_workers wd = 0 \<and>
     (\<exists>busy. replay (trace wd) (0, \<lambda>_. False) = Some (0, busy)) \<and>
     terms (trace wd) = [1..<Suc W]"
proof -
  let ?wd0 = "initialize_workers (distribute_parameters n k (start_world W n))"
  let ?f = "master_solution_func e W n k"
  have i0: "minv W n k ?wd0 (\<lambda>_. Fresh) [] []" by (rule start_invariant)
  from dispatch_all[OF i0 _ W nk(2,3) hw] obtain wd1 ws1 fin1 where
    em: "emit_all ?f (extensions n k []) ?wd0 = Some wd1"
    and i1: "minv W n k wd1 ws1 (extensions n k []) fin1" by auto
  have "case emit_all ?f (extensions (length (replicate n (0::nat))) (k - 0) (take 0 (replicate n 0))) ?wd0 of
       None \<Rightarrow> nqueens_by_level (mjunk e) (replicate n 0) 0 k ?f ?wd0 = None
     | Some c' \<Rightarrow>
         (\<exists>t. nqueens_by_level (mjunk e) (replicate n 0) 0 k ?f ?wd0 = Some (Ret t) \<and> store t = c' \<and>
            ((0::nat) = 0 \<longrightarrow> - 1 \<in> set (stray t)))"
    using nk hm by (intro nqueens_by_level_result) simp_all
  then obtain t where run: "nqueens_by_level (mjunk e) (replicate n 0) 0 k ?f ?wd0 = Some (Ret t)"
    and st: "store t = wd1" using em by auto
  from drain_all[OF i1 W(2), of e] obtain wd2 ws2 fin2 where
    dr: "drain e W wd1 = Some wd2" and i2: "minv W n k wd2 ws2 (extensions n k []) fin2"
    and a0: "active_workers wd2 = 0" by blast
  have so: "solutions wd2 = concat (map (batch_of n k) fin2)"
    and ac: "active_workers wd2 = int (card (busy_set W ws2))"
    and di: "set (extensions n k []) = set fin2 \<union> {u. \<exists>w. 1 \<le> w \<and> w \<le> W \<and> ws2 w = Busy u}"
    and rp: "replay (trace wd2) (0, \<lambda>_. False) = Some (active_workers wd2, \<lambda>w. w \<in> busy_set W ws2)"
    and tm: "terms (trace wd2) = []"
    using i2 by (simp_all add: minv_def)
  have "busy_set W ws2 = {}" using a0 ac busy_set_finite[of W ws2] by simp
  then have "{u. \<exists>w. 1 \<le> w \<and> w \<le> W \<and> ws2 w = Busy u} = {}"
    by (auto simp: busy_set_def is_busy_def)
  then have sf: "set fin2 = set (extensions n k [])" using di by (simp only: Un_empty_right)
  let ?wd3 = "terminate_all W wd2"
  have mm: "master_main e W n k = Some (Ret (solutions ?wd3, ?wd3\<lparr>solutions := []\<rparr>))"
    using run st dr by (simp add: master_main_def Let_def)
  have "replay (trace ?wd3) (0, \<lambda>_. False) = Some (0, \<lambda>w. w \<in> busy_set W ws2)"
    using rp a0 by (simp add: terminate_all_def replay_append replay_Terminate)
  moreover have "terms (trace ?wd3) = [1..<Suc W]"
    using tm by (simp add: terminate_all_def terms_append terms_Terminate)
  moreover have "solutions ?wd3 = concat (map (batch_of n k) fin2)"
    using so by (simp add: terminate_all_def)
  moreover have "active_workers (?wd3\<lparr>solutions := []\<rparr>) = 0"
    using a0 by (simp add: terminate_all_def)
  ultimately show ?thesis
    using mm sf by (intro exI[of _ "?wd3\<lparr>solutions := []\<rparr>"] exI[of _ fin2]) auto
qed

lemma chunks_batches:
  assumes n: "0 < n" "k \<le> n" and fin: "set fin \<subseteq> set (extensions n k [])"
  shows "chunks n (concat (map (batch_of n k) fin)) = concat (map (extensions n (n - k)) fin)"
proof -
  have "concat (map (batch_of n k) fin) = concat (concat (map (extensions n (n - k)) fin))"
    by (induction fin) (simp_all add: batch_of_def)
  moreover have "\<forall>x \<in> set (concat (map (extensions n (n - k)) fin)). length x = n"
  proof
    fix x assume "x \<in> set (concat (map (extensions n (n - k)) fin))"
    then obtain u where u: "u \<in> set fin" "x \<in> set (extensions n (n - k) u)" by auto
    then have "length u = k" using fin extensions_length[of u n k "[]"] by auto
    then show "length x = n" using extensions_length[OF u(2)] n by simp
  qed
  then have "chunks n (concat (concat (map (extensions n (n - k)) fin))) =
      concat (map (extensions n (n - k)) fin)"
    by (rule chunks_concat[OF n(1)])
  ultimately show ?thesis by (simp only:)
qed

lemma protocol_solution_set:
  assumes n: "0 < n" "k \<le> n" and fin: "set fin = set (extensions n k [])"
  shows "set (chunks n (concat (map (batch_of n k) fin))) = set (extensions n n [])"
proof -
  have "set (chunks n (concat (map (batch_of n k) fin))) =
      (\<Union>u \<in> set fin. set (extensions n (n - k) u))"
    using chunks_batches[OF n, of fin] fin by simp
  also have "\<dots> = set (extensions n (k + (n - k)) [])"
    unfolding fin by (rule extensions_compose[symmetric])
  finally show ?thesis using n(2) by simp
qed

section \<open>What the callback keeps, the enumeration keeps\<close>

lemma state_of_simps [simp]: "state_of (Fault t) = t" "state_of (Ret t) = t"
  by (simp_all add: state_of_def)

lemma set_j_store [simp]: "store (state_of (set_j s)) = store s"
  by (simp add: set_j_def)

lemma restart_store [simp]: "store (state_of (restart s)) = store s"
  by (simp add: restart_def)

lemma advance_store [simp]: "store (state_of (advance ml s)) = store s"
  by (simp add: advance_def wr_index_def Let_def)

lemma backtrack_store: "backtrack ml s = Some r \<Longrightarrow> store (state_of r) = store s"
  using ascend_keeps[of ml s] by (auto simp: backtrack_def)

lemma wr_pos_store [simp]: "store (state_of (wr_pos ml s)) = store s"
  by (simp add: wr_pos_def Let_def)

lemma note_test_store [simp]: "store (note_test ml s) = store s"
  by (simp add: note_test_def)

lemma report_store:
  assumes "kept_by P f" "P (store s)" "report ml f s = Some r"
  shows "P (store (state_of r))"
  using assms by (auto simp: report_def kept_by_def split: if_splits)

lemma place_store:
  assumes f: "kept_by P f" and p: "P (store s)"
    and r: "place ml f s = Some r"
  shows "P (store (state_of r))"
proof (cases "wr_pos ml s")
  case (Fault t)
  then have "store t = store s" using wr_pos_store[of ml s] by simp
  then show ?thesis using r p Fault by (auto simp: place_def)
next
  case (Ret s1)
  then have s1: "store s1 = store s" using wr_pos_store[of ml s] by simp
  show ?thesis
  proof (cases "to_unsigned (var_k s1) = usub1 ml")
    case True
    then have "(case report ml f s1 of None \<Rightarrow> None | Some (Fault e) \<Rightarrow> Some (Fault e)
        | Some (Ret s2) \<Rightarrow> backtrack ml s2) = Some r"
      using r Ret by (simp add: place_def)
    then obtain r1 where r1: "report ml f s1 = Some r1"
      and c: "(case r1 of Fault e \<Rightarrow> Some (Fault e) | Ret s2 \<Rightarrow> backtrack ml s2) = Some r"
      by (auto split: option.splits)
    have "P (store s1)" using p s1 by simp
    then have p1: "P (store (state_of r1))" using r1 by (rule report_store[OF f])
    show ?thesis
    proof (cases r1)
      case (Fault e)
      then show ?thesis using c p1 by auto
    next
      case (Ret s2)
      then show ?thesis using c p1 backtrack_store[of ml s2 r] by auto
    qed
  next
    case False
    then have "Some (restart (wr_index ml (var_k s1 + 1) 0 (s1\<lparr>var_k := var_k s1 + 1\<rparr>))) = Some r"
      using r Ret by (simp add: place_def)
    then have "store (state_of r) = store s1"
      by auto
    then show ?thesis using p s1 by simp
  qed
qed

lemma if_three: "(if a then x else if b then y else z) = x \<or>
    (if a then x else if b then y else z) = y \<or> (if a then x else if b then y else z) = z"
  by auto

lemma body_store:
  assumes f: "kept_by P f" and p: "P (store s)"
    and r: "body ml f s = Some r"
  shows "P (store (state_of r))"
proof -
  let ?s = "note_test ml s"
  have ps: "P (store ?s)" using p by simp
  have "body ml f s = backtrack ml ?s \<or> body ml f s = place ml f ?s
    \<or> body ml f s = Some (set_j (?s\<lparr>var_i := var_i ?s + 1\<rparr>))"
    unfolding body_def Let_def by (rule if_three)
  then consider (a) "body ml f s = backtrack ml ?s" | (b) "body ml f s = place ml f ?s"
    | (c) "body ml f s = Some (set_j (?s\<lparr>var_i := var_i ?s + 1\<rparr>))"
    by blast
  then show ?thesis
  proof cases
    case a
    then show ?thesis using r backtrack_store[of ml ?s r] ps by simp
  next
    case b
    then have "place ml f ?s = Some r" using r by simp
    then show ?thesis by (rule place_store[OF f ps])
  next
    case c
    then have "r = set_j (?s\<lparr>var_i := var_i ?s + 1\<rparr>)" using r by simp
    then show ?thesis using p by simp
  qed
qed

lemma search_loop_store:
  assumes f: "kept_by P f"
    and r: "search_loop ml f s = Some r" and p: "P (store s)"
  shows "P (store (state_of r))"
proof -
  have "P (store s) \<longrightarrow> P (store (state_of r))"
  proof (rule search_loop.raw_induct[where P = "\<lambda>ml' f' s r. ml' = ml \<and> f' = f \<longrightarrow> P (store s) \<longrightarrow> P (store (state_of r))",
        rotated, OF r, THEN mp])
    fix sl :: "nat \<Rightarrow> (nat list \<Rightarrow> 'a \<Rightarrow> 'a option) \<Rightarrow> 'a frame \<Rightarrow> 'a frame res option"
      and ml' f' s r
    assume IH: "\<And>ml' f' s r. sl ml' f' s = Some r \<Longrightarrow> ml' = ml \<and> f' = f \<longrightarrow> P (store s) \<longrightarrow> P (store (state_of r))"
      and eq: "(if flag s = 0
         then case body ml' f' s of None \<Rightarrow> None | Some (Fault e) \<Rightarrow> Some (Fault e)
              | Some (Ret s') \<Rightarrow> sl ml' f' s'
         else Some (Ret s)) = Some r"
    show "ml' = ml \<and> f' = f \<longrightarrow> P (store s) \<longrightarrow> P (store (state_of r))"
    proof (intro impI)
      assume mf: "ml' = ml \<and> f' = f" and ps: "P (store s)"
      show "P (store (state_of r))"
      proof (cases "flag s = 0")
        case False
        then show ?thesis using eq ps by auto
      next
        case True
        then obtain r1 where b: "body ml f s = Some r1"
          and c: "(case r1 of Fault e \<Rightarrow> Some (Fault e) | Ret s' \<Rightarrow> sl ml f s') = Some r"
          using eq mf by (auto split: option.splits)
        have p1: "P (store (state_of r1))" by (rule body_store[OF f ps b])
        show ?thesis
        proof (cases r1)
          case (Fault e)
          then show ?thesis using c p1 by auto
        next
          case (Ret s')
          then have "sl ml f s' = Some r" using c by simp
          from IH[OF this] show ?thesis using p1 Ret by simp
        qed
      qed
    qed
  qed simp
  then show ?thesis using p by simp
qed

lemma for_init_store: "store (state_of (for_init ml s)) = store s"
proof (induction ml s rule: for_init.induct)
  case (1 ml s)
  show ?case
  proof (cases "to_unsigned (var_k s) \<le> usub1 ml \<and> in_block ml (var_k s)")
    case True
    then have "for_init ml s = for_init ml (s\<lparr>index := (index s)(var_k s := 0), var_k := var_k s + 1\<rparr>)"
      by (subst for_init.simps) simp
    then show ?thesis using 1 True by simp
  next
    case False
    then have "for_init ml s = Fault s \<or> for_init ml s = Ret s"
      by (subst (1 2) for_init.simps) auto
    then show ?thesis by auto
  qed
qed

lemma nqueens_by_level_store:
  assumes f: "kept_by P f" and r: "nqueens_by_level junk ps sl ml f c = Some r" and p: "P c"
  shows "P (store (state_of r))"
proof -
  let ?s0 = "\<lparr>pos = ps, index = junk, var_i = 0, var_j = 0, var_k = to_signed (int sl),
      flag = 0, var_size = to_signed (int (length ps)), stop_sign = 0, store = c, stray = [], wild = []\<rparr>"
  have s0: "store (state_of (for_init ml ?s0)) = c" using for_init_store[of ml ?s0] by simp
  show ?thesis
  proof (cases "for_init ml ?s0")
    case (Fault t)
    then show ?thesis using r s0 p by (simp add: nqueens_by_level_def)
  next
    case (Ret s1)
    let ?s1 = "s1\<lparr>stop_sign := to_signed (usub1 sl), var_k := to_signed (int sl)\<rparr>"
    have s1: "store (state_of (restart ?s1)) = c"
      using s0 Ret by simp
    show ?thesis
    proof (cases "restart ?s1")
      case (Fault t)
      then show ?thesis using r s1 p Ret by (simp add: nqueens_by_level_def)
    next
      case r2: (Ret s2)
      then have "search_loop ml f s2 = Some r" using r Ret by (simp add: nqueens_by_level_def)
      moreover have "P (store s2)" using s1 r2 p by simp
      ultimately show ?thesis by (rule search_loop_store[OF f])
    qed
  qed
qed

lemma announced_append:
  "announced n k wd \<Longrightarrow> trace wd' = trace wd @ tr \<Longrightarrow> announced n k wd'"
proof -
  assume a: "announced n k wd" and t: "trace wd' = trace wd @ tr"
  have "length (take 2 (trace wd)) = 2" using a by (simp add: announced_def)
  then have "2 \<le> length (trace wd)" by simp
  then have "take 2 (trace wd @ tr) = take 2 (trace wd)" by simp
  then show ?thesis using a t by (simp add: announced_def)
qed

lemma take_report_trace: "\<exists>ev. trace (take_report w wd) = trace wd @ [ev]"
  by (simp add: take_report_def Let_def remove_worker_def)

lemma recieve_solution_trace:
  assumes "recieve_solution e W wd = Some (w, wd')"
  shows "\<exists>ev. trace wd' = trace wd @ [ev]"
proof -
  have "wd' = take_report w wd"
    using assms by (simp add: recieve_solution_def Let_def split: if_splits)
  then show ?thesis using take_report_trace by simp
qed

lemma worker_work_trace [simp]: "trace (worker_work e n k w u wd) = trace wd"
  by (simp add: worker_work_def Let_def split: option.splits res.splits)

lemma master_solution_func_announced: "kept_by (announced n k) (master_solution_func e W n' k')"
  unfolding kept_by_def
proof (intro allI impI)
  fix x c c'
  assume a: "announced n k c" and m: "master_solution_func e W n' k' x c = Some c'"
  then obtain w wd1 where r: "recieve_solution e W c = Some (w, wd1)"
    by (auto simp: master_solution_func_def split: option.splits)
  from recieve_solution_trace[OF r] obtain ev where "trace wd1 = trace c @ [ev]" by blast
  moreover have "\<exists>ev'. trace c' = trace wd1 @ [ev']"
    using m r by (auto simp: master_solution_func_def Let_def add_worker_def)
  ultimately have "\<exists>tr. trace c' = trace c @ tr" by auto
  then show "announced n k c'" using a announced_append by blast
qed

lemma drain_announced:
  assumes "drain e W wd = Some wd'" "announced n k wd"
  shows "announced n k wd'"
proof -
  have "announced n k wd \<longrightarrow> announced n k wd'"
  proof (rule drain.raw_induct[where P = "\<lambda>e' W' wd wd'. announced n k wd \<longrightarrow> announced n k wd'",
        rotated, OF assms(1)])
    fix dr :: "env \<Rightarrow> nat \<Rightarrow> world \<Rightarrow> world option" and e' W' wd wd'
    assume IH: "\<And>e' W' wd wd'. dr e' W' wd = Some wd' \<Longrightarrow> announced n k wd \<longrightarrow> announced n k wd'"
      and eq: "(if 0 < active_workers wd
           then case recieve_solution e' W' wd of None \<Rightarrow> None | Some (w, wd') \<Rightarrow> dr e' W' wd'
           else Some wd) = Some wd'"
    show "announced n k wd \<longrightarrow> announced n k wd'"
    proof
      assume a: "announced n k wd"
      show "announced n k wd'"
      proof (cases "0 < active_workers wd")
        case False
        then show ?thesis using eq a by simp
      next
        case True
        then obtain w wd1 where r: "recieve_solution e' W' wd = Some (w, wd1)"
          and d: "dr e' W' wd1 = Some wd'"
          using eq by (auto split: option.splits)
        from recieve_solution_trace[OF r] a have "announced n k wd1"
          using announced_append by blast
        then show ?thesis using IH[OF d] by simp
      qed
    qed
  qed
  then show ?thesis using assms(2) by simp
qed

lemma master_main_announced:
  assumes "master_main e W n k = Some r"
  shows "announced n k (snd (state_of r))"
proof -
  let ?wd0 = "initialize_workers (distribute_parameters n k (start_world W n))"
  let ?f = "master_solution_func e W n k"
  have a0: "announced n k ?wd0"
    by (simp add: announced_def initialize_workers_def distribute_parameters_def start_world_def)
  obtain r1 where r1: "nqueens_by_level (mjunk e) (replicate n 0) 0 k ?f ?wd0 = Some r1"
    using assms by (auto simp: master_main_def Let_def split: option.splits)
  have a1: "announced n k (store (state_of r1))"
    using master_solution_func_announced r1 a0 by (rule nqueens_by_level_store)
  show ?thesis
  proof (cases r1)
    case (Fault t)
    then show ?thesis using assms r1 a1 by (auto simp: master_main_def Let_def)
  next
    case (Ret t)
    then obtain wd1 where d: "drain e W (store t) = Some wd1"
      and r: "r = Ret (solutions (terminate_all W wd1), terminate_all W wd1\<lparr>solutions := []\<rparr>)"
      using assms r1 by (auto simp: master_main_def Let_def split: option.splits)
    have "announced n k wd1" using d a1 Ret by (auto intro: drain_announced)
    moreover have "trace (terminate_all W wd1\<lparr>solutions := []\<rparr>) = trace wd1 @ map Terminate [1..<Suc W]"
      by (simp add: terminate_all_def)
    ultimately have "announced n k (terminate_all W wd1\<lparr>solutions := []\<rparr>)"
      by (rule announced_append)
    then show ?thesis using r by simp
  qed
qed

section \<open>The liveness count for any parameters\<close>

lemma recieve_solution_Some:
  assumes "recieve_solution e W wd = Some (w, wd')"
  shows "1 \<le> w \<and> w \<le> W \<and> inbox wd w \<noteq> [] \<and> wd' = take_report w wd"
proof -
  define pend where "pend = filter (\<lambda>w. inbox wd w \<noteq> []) [1..<Suc W]"
  have ne: "pend \<noteq> []"
    using assms unfolding recieve_solution_def pend_def[symmetric] Let_def
    by (auto split: if_splits)
  define v where "v = pend ! (sched e (received wd) mod length pend)"
  have "v \<in> set pend" unfolding v_def using ne by (intro nth_mem) simp
  then have v: "1 \<le> v \<and> v \<le> W \<and> inbox wd v \<noteq> []" unfolding pend_def by auto
  from assms have "(if pend = [] then None else Some (v, take_report v wd)) = Some (w, wd')"
    unfolding recieve_solution_def pend_def[symmetric] Let_def v_def[symmetric] .
  then have "Some (v, take_report v wd) = Some (w, wd')" using ne by (simp only: if_False)
  then have "v = w" "take_report v wd = wd'" by blast+
  then show ?thesis using v by auto
qed

lemma owing_finite: "finite (owing W ws)"
  by (rule finite_subset[of _ "{1..W}"]) (auto simp: owing_def)

lemma owing_card: "card (owing W ws) \<le> W"
proof -
  have "owing W ws \<subseteq> {1..W}" by (auto simp: owing_def)
  then have "card (owing W ws) \<le> card {1..W}" by (intro card_mono) simp_all
  then show ?thesis by simp
qed

lemma owing_quiet: "owing W (ws(w := Quiet)) = owing W ws - {w}"
  by (auto simp: owing_def owes_def)

lemma owing_owes: "1 \<le> w \<Longrightarrow> w \<le> W \<Longrightarrow> owes st \<Longrightarrow> owing W (ws(w := st)) = insert w (owing W ws)"
  by (auto simp: owing_def)

lemma recieve_solution_ginv:
  assumes r: "recieve_solution e W wd = Some (w, wd')" and inv: "ginv W wd ws"
    and W: "W < 2147483648"
  shows "1 \<le> w \<and> w \<le> W \<and> ginv W wd' (ws(w := Quiet))"
proof -
  have ib: "\<And>w. inbox wd w = (if 1 \<le> w \<and> w \<le> W then gbox (ws w) else [])"
    and pm: "\<And>w m. ws w = Pending m \<Longrightarrow> fst m = solution_ready \<or> fst m = no_solution_ready"
    and ac: "active_workers wd = int (card (owing W ws))"
    and rp: "replay (trace wd) (0, \<lambda>_. False) = Some (active_workers wd, \<lambda>w. w \<in> owing W ws)"
    and tm: "terms (trace wd) = []"
    using inv unfolding ginv_def by blast+
  from recieve_solution_Some[OF r] have w: "1 \<le> w" "w \<le> W" and ne: "inbox wd w \<noteq> []"
    and wd': "wd' = take_report w wd"
    by simp_all
  have ibw: "inbox wd w = gbox (ws w)" using ib w by simp
  let ?ws = "ws(w := Quiet)"
  have pm': "\<forall>v m. ?ws v = Pending m \<longrightarrow> fst m = solution_ready \<or> fst m = no_solution_ready"
  proof (intro allI impI)
    fix v m assume "?ws v = Pending m"
    then have "ws v = Pending m" by (auto split: if_splits)
    then show "fst m = solution_ready \<or> fst m = no_solution_ready" by (rule pm)
  qed
  have ib': "inbox wd' v = (if 1 \<le> v \<and> v \<le> W then gbox (?ws v) else [])" for v
  proof -
    have "inbox wd' = (inbox wd)(w := tl (inbox wd w))"
      unfolding wd' by (simp add: take_report_def Let_def remove_worker_def)
    moreover have "tl (inbox wd w) = []" using ibw by (cases "ws w") (simp_all add: gbox_def)
    ultimately show ?thesis using ib[of v] by (simp add: gbox_def)
  qed
  have tr': "\<exists>r. trace wd' = trace wd @ [Ready w r (active_workers wd')] \<and> r = fst (hd (inbox wd w))"
    unfolding wd' by (simp add: take_report_def Let_def remove_worker_def)
  show ?thesis
  proof (cases "ws w")
    case Quiet
    then show ?thesis using ne ibw by (simp add: gbox_def)
  next
    case Lost
    then show ?thesis using ne ibw by (simp add: gbox_def)
  next
    case Waiting
    then have rd: "fst (hd (inbox wd w)) = initial_ready" using ibw by (simp add: gbox_def)
    have a': "active_workers wd' = active_workers wd"
      unfolding wd' using rd
      by (simp add: take_report_def Let_def initial_ready_def solution_ready_def no_solution_ready_def)
    have nb: "w \<notin> owing W ws" using Waiting by (simp add: owing_def owes_def)
    then have bs: "owing W ?ws = owing W ws" by (simp add: owing_quiet)
    have "replay_event (Ready w initial_ready (active_workers wd)) (active_workers wd, \<lambda>w. w \<in> owing W ws)
        = Some (active_workers wd, \<lambda>w. w \<in> owing W ?ws)"
      using nb bs by simp
    then have "replay (trace wd') (0, \<lambda>_. False) = Some (active_workers wd', \<lambda>w. w \<in> owing W ?ws)"
      using tr' rd a' rp by (auto simp: replay_append)
    moreover have "terms (trace wd') = []" using tr' tm by (auto simp: terms_append)
    ultimately have "ginv W wd' ?ws"
      unfolding ginv_def using ib' pm' a' ac bs by simp
    then show ?thesis using w by simp
  next
    case (Pending m)
    then have rd: "fst (hd (inbox wd w)) = fst m" using ibw by (simp add: gbox_def)
    have fm: "fst m = solution_ready \<or> fst m = no_solution_ready" using pm Pending by simp
    have inb: "w \<in> owing W ws" using Pending w by (simp add: owing_def owes_def)
    have bs: "owing W ?ws = owing W ws - {w}" by (rule owing_quiet)
    have cd: "card (owing W ?ws) = card (owing W ws) - 1"
      unfolding bs using inb owing_finite by (simp add: card_Diff_singleton)
    have pos: "0 < card (owing W ws)"
      using inb owing_finite[of W ws] by (auto simp: card_gt_0_iff)
    have le: "card (owing W ws) \<le> W" by (rule owing_card)
    have md: "(active_workers wd - 1) mod 4294967296 = int (card (owing W ?ws))"
      using ac cd pos le W by simp
    have a': "active_workers wd' = int (card (owing W ?ws))"
      unfolding wd' using rd fm md
      by (auto simp: take_report_def Let_def remove_worker_def solution_ready_def no_solution_ready_def)
    have ni: "fst m \<noteq> initial_ready"
      using fm by (auto simp: initial_ready_def solution_ready_def no_solution_ready_def)
    have fe: "(\<lambda>v. v \<in> owing W ws)(w := False) = (\<lambda>v. v \<in> owing W ?ws)"
      unfolding bs by (auto simp: fun_eq_iff)
    have "int (card (owing W ?ws)) = int (card (owing W ws)) - 1" using cd pos by simp
    then have "replay_event (Ready w (fst m) (int (card (owing W ?ws))))
        (int (card (owing W ws)), \<lambda>w. w \<in> owing W ws)
        = Some (int (card (owing W ?ws)), \<lambda>w. w \<in> owing W ?ws)"
      using inb fm ni fe by simp
    then have "replay_event (Ready w (fst m) (active_workers wd')) (active_workers wd, \<lambda>w. w \<in> owing W ws)
        = Some (active_workers wd', \<lambda>w. w \<in> owing W ?ws)"
      unfolding a' ac .
    then have "replay (trace wd') (0, \<lambda>_. False) = Some (active_workers wd', \<lambda>w. w \<in> owing W ?ws)"
      using tr' rd rp by (auto simp: replay_append)
    moreover have "terms (trace wd') = []" using tr' tm by (auto simp: terms_append)
    ultimately have "ginv W wd' ?ws"
      unfolding ginv_def using ib' pm' a' by simp
    then show ?thesis using w by simp
  qed
qed

lemma worker_work_cases:
  "worker_work e n k w u wd = wd \<or>
   worker_work e n k w u wd = wd\<lparr>wpos := (wpos wd)(w := u @ drop (length u) (wpos wd w))\<rparr> \<or>
   (\<exists>m. (fst m = solution_ready \<or> fst m = no_solution_ready) \<and>
     worker_work e n k w u wd =
       wd\<lparr>wpos := (wpos wd)(w := u @ drop (length u) (wpos wd w)),
          inbox := (inbox wd)(w := inbox wd w @ [m])\<rparr>)"
proof (cases "length u \<le> n")
  case False
  then show ?thesis by (simp add: worker_work_def)
next
  case True
  let ?ps = "u @ drop (length u) (wpos wd w)"
  show ?thesis
  proof (cases "nqueens_by_level (wjunk e u) ?ps k n worker_solution_func []")
    case None
    then show ?thesis using True by (simp add: worker_work_def Let_def)
  next
    case (Some r)
    show ?thesis
    proof (cases r)
      case (Fault t)
      then show ?thesis using True Some by (simp add: worker_work_def Let_def)
    next
      case (Ret t)
      let ?m = "if store t \<noteq> [] then (solution_ready, store t) else (no_solution_ready, [])"
      have "worker_work e n k w u wd =
         wd\<lparr>wpos := (wpos wd)(w := ?ps), inbox := (inbox wd)(w := inbox wd w @ [?m])\<rparr>"
        using True Some Ret by (simp add: worker_work_def Let_def)
      moreover have "fst ?m = solution_ready \<or> fst ?m = no_solution_ready" by simp
      ultimately show ?thesis by blast
    qed
  qed
qed

lemma worker_work_ginv:
  assumes inv: "ginv W wd ws" and w: "1 \<le> w" "w \<le> W" and q: "ws w = Quiet"
  shows "\<exists>st. owes st \<and>
     (\<forall>v. inbox (worker_work e n k w u wd) v = (if 1 \<le> v \<and> v \<le> W then gbox ((ws(w := st)) v) else [])) \<and>
     (\<forall>v m. (ws(w := st)) v = Pending m \<longrightarrow> fst m = solution_ready \<or> fst m = no_solution_ready) \<and>
     active_workers (worker_work e n k w u wd) = active_workers wd \<and>
     trace (worker_work e n k w u wd) = trace wd"
proof -
  have ib: "\<And>v. inbox wd v = (if 1 \<le> v \<and> v \<le> W then gbox (ws v) else [])"
    and pm: "\<And>v m. ws v = Pending m \<Longrightarrow> fst m = solution_ready \<or> fst m = no_solution_ready"
    using inv unfolding ginv_def by blast+
  have ibw: "inbox wd w = []" using ib[of w] w q by (simp add: gbox_def)
  let ?wd = "worker_work e n k w u wd"
  have "(inbox ?wd = inbox wd \<and> active_workers ?wd = active_workers wd \<and> trace ?wd = trace wd) \<or>
     (\<exists>m. (fst m = solution_ready \<or> fst m = no_solution_ready) \<and>
        inbox ?wd = (inbox wd)(w := [m]) \<and> active_workers ?wd = active_workers wd \<and>
        trace ?wd = trace wd)" (is ?C)
  proof -
    consider (1) "?wd = wd"
      | (2) "?wd = wd\<lparr>wpos := (wpos wd)(w := u @ drop (length u) (wpos wd w))\<rparr>"
      | (3) m where "fst m = solution_ready \<or> fst m = no_solution_ready"
          "?wd = wd\<lparr>wpos := (wpos wd)(w := u @ drop (length u) (wpos wd w)),
             inbox := (inbox wd)(w := inbox wd w @ [m])\<rparr>"
      using worker_work_cases[of e n k w u wd] by blast
    then show ?C
    proof cases
      case 1
      then show ?thesis by simp
    next
      case 2
      then show ?thesis by simp
    next
      case 3
      have "inbox ?wd = (inbox wd)(w := [m])" unfolding 3(2) using ibw by simp
      moreover have "active_workers ?wd = active_workers wd" "trace ?wd = trace wd"
        unfolding 3(2) by simp_all
      ultimately show ?thesis using 3(1) by blast
    qed
  qed
  then consider (same) "inbox ?wd = inbox wd" "active_workers ?wd = active_workers wd" "trace ?wd = trace wd"
    | (msg) m where "fst m = solution_ready \<or> fst m = no_solution_ready"
        "inbox ?wd = (inbox wd)(w := [m])" "active_workers ?wd = active_workers wd" "trace ?wd = trace wd"
    by blast
  then show ?thesis
  proof cases
    case same
    have "gbox ((ws(w := Lost)) v) = gbox (ws v)" for v using q by (simp add: gbox_def)
    then have "\<forall>v. inbox ?wd v = (if 1 \<le> v \<and> v \<le> W then gbox ((ws(w := Lost)) v) else [])"
      using ib same(1) by simp
    moreover have "\<forall>v m. (ws(w := Lost)) v = Pending m \<longrightarrow> fst m = solution_ready \<or> fst m = no_solution_ready"
    proof (intro allI impI)
      fix v m assume "(ws(w := Lost)) v = Pending m"
      then have "ws v = Pending m" by (auto split: if_splits)
      then show "fst m = solution_ready \<or> fst m = no_solution_ready" by (rule pm)
    qed
    moreover have "owes Lost" by (simp add: owes_def)
    ultimately show ?thesis using same by blast
  next
    case msg
    have "\<forall>v. inbox ?wd v = (if 1 \<le> v \<and> v \<le> W then gbox ((ws(w := Pending m)) v) else [])"
      using ib msg(2) w by (simp add: gbox_def)
    moreover have "\<forall>v m'. (ws(w := Pending m)) v = Pending m' \<longrightarrow>
        fst m' = solution_ready \<or> fst m' = no_solution_ready"
    proof (intro allI impI)
      fix v m' assume a: "(ws(w := Pending m)) v = Pending m'"
      show "fst m' = solution_ready \<or> fst m' = no_solution_ready"
      proof (cases "v = w")
        case True
        then have "m' = m" using a by simp
        then show ?thesis using msg(1) by simp
      next
        case False
        then have "ws v = Pending m'" using a by simp
        then show ?thesis by (rule pm)
      qed
    qed
    moreover have "owes (Pending m)" by (simp add: owes_def)
    ultimately show ?thesis using msg by blast
  qed
qed

lemma master_solution_func_disciplined:
  assumes W: "W < 2147483648"
  shows "kept_by (disciplined W) (master_solution_func e W n k)"
  unfolding kept_by_def
proof (intro allI impI)
  fix u wd wd'
  assume d: "disciplined W wd" and m: "master_solution_func e W n k u wd = Some wd'"
  from d obtain ws where inv: "ginv W wd ws" by (auto simp: disciplined_def)
  from m obtain w wd1 where r: "recieve_solution e W wd = Some (w, wd1)"
    by (auto simp: master_solution_func_def split: option.splits)
  from recieve_solution_ginv[OF r inv W] have w: "1 \<le> w" "w \<le> W"
    and inv1: "ginv W wd1 (ws(w := Quiet))" by simp_all
  let ?ws1 = "ws(w := Quiet)"
  let ?wd2 = "worker_work e n k w u wd1"
  from worker_work_ginv[OF inv1 w, of e n k u] obtain st where st: "owes st"
    and ib: "\<forall>v. inbox ?wd2 v = (if 1 \<le> v \<and> v \<le> W then gbox ((?ws1(w := st)) v) else [])"
    and pm: "\<forall>v m. (?ws1(w := st)) v = Pending m \<longrightarrow> fst m = solution_ready \<or> fst m = no_solution_ready"
    and a2: "active_workers ?wd2 = active_workers wd1" and t2: "trace ?wd2 = trace wd1"
    by auto
  have ac: "active_workers wd1 = int (card (owing W ?ws1))"
    and rp: "replay (trace wd1) (0, \<lambda>_. False) = Some (active_workers wd1, \<lambda>w. w \<in> owing W ?ws1)"
    and tm: "terms (trace wd1) = []"
    using inv1 unfolding ginv_def by blast+
  let ?ws = "?ws1(w := st)"
  have bs: "owing W ?ws = insert w (owing W ?ws1)" by (rule owing_owes[OF w st])
  have nb: "w \<notin> owing W ?ws1" by (simp add: owing_def owes_def)
  have cd: "card (owing W ?ws) = card (owing W ?ws1) + 1"
    unfolding bs using nb owing_finite by simp
  have le: "card (owing W ?ws) \<le> W" by (rule owing_card)
  have md: "(active_workers wd1 + 1) mod 4294967296 = int (card (owing W ?ws))"
    using ac cd le W by simp
  let ?a = "int (card (owing W ?ws))"
  have wd': "wd' = ?wd2\<lparr>active_workers := ?a, trace := trace wd1 @ [Work w u ?a]\<rparr>"
    using m r md a2 t2 by (simp add: master_solution_func_def add_worker_def Let_def)
  have fe: "(\<lambda>v. v \<in> owing W ?ws1)(w := True) = (\<lambda>v. v \<in> owing W ?ws)"
    unfolding bs by (auto simp: fun_eq_iff)
  have "int (card (owing W ?ws)) = int (card (owing W ?ws1)) + 1" using cd by simp
  then have "replay_event (Work w u ?a) (int (card (owing W ?ws1)), \<lambda>w. w \<in> owing W ?ws1)
      = Some (?a, \<lambda>w. w \<in> owing W ?ws)"
    using nb fe by simp
  then have "replay (trace wd') (0, \<lambda>_. False) = Some (active_workers wd', \<lambda>w. w \<in> owing W ?ws)"
    unfolding wd' using rp ac by (simp add: replay_append)
  moreover have "terms (trace wd') = []" unfolding wd' using tm by (simp add: terms_append)
  moreover have "\<forall>v. inbox wd' v = (if 1 \<le> v \<and> v \<le> W then gbox (?ws v) else [])"
    unfolding wd' using ib by simp
  moreover have "active_workers wd' = int (card (owing W ?ws))" unfolding wd' by simp
  ultimately have "ginv W wd' ?ws" unfolding ginv_def using pm by blast
  then show "disciplined W wd'" unfolding disciplined_def by blast
qed

lemma drain_disciplined:
  assumes "drain e W wd = Some wd'" "disciplined W wd" "W < 2147483648"
  shows "disciplined W wd' \<and> active_workers wd' = 0"
proof -
  have "disciplined W wd \<longrightarrow> disciplined W wd' \<and> active_workers wd' = 0"
  proof (rule drain.raw_induct[where P = "\<lambda>e' W' wd wd'. W' = W \<longrightarrow> disciplined W wd \<longrightarrow>
        disciplined W wd' \<and> active_workers wd' = 0", rotated, OF assms(1), THEN mp])
    fix dr :: "env \<Rightarrow> nat \<Rightarrow> world \<Rightarrow> world option" and e' W' wd wd'
    assume IH: "\<And>e' W' wd wd'. dr e' W' wd = Some wd' \<Longrightarrow> W' = W \<longrightarrow> disciplined W wd \<longrightarrow>
        disciplined W wd' \<and> active_workers wd' = 0"
      and eq: "(if 0 < active_workers wd
           then case recieve_solution e' W' wd of None \<Rightarrow> None | Some (w, wd') \<Rightarrow> dr e' W' wd'
           else Some wd) = Some wd'"
    show "W' = W \<longrightarrow> disciplined W wd \<longrightarrow> disciplined W wd' \<and> active_workers wd' = 0"
    proof (intro impI)
      assume W': "W' = W" and a: "disciplined W wd"
      show "disciplined W wd' \<and> active_workers wd' = 0"
      proof (cases "0 < active_workers wd")
        case False
        from a obtain ws where "ginv W wd ws" by (auto simp: disciplined_def)
        then have "active_workers wd = int (card (owing W ws))" unfolding ginv_def by blast
        then have "active_workers wd = 0" using False by simp
        then show ?thesis using eq a False by simp
      next
        case True
        then obtain w wd1 where r: "recieve_solution e' W wd = Some (w, wd1)"
          and d: "dr e' W wd1 = Some wd'"
          using eq W' by (auto split: option.splits)
        from a obtain ws where inv: "ginv W wd ws" by (auto simp: disciplined_def)
        from recieve_solution_ginv[OF r inv assms(3)] have "disciplined W wd1"
          by (auto simp: disciplined_def)
        then show ?thesis using IH[OF d] by simp
      qed
    qed
  qed simp
  then show ?thesis using assms(2) by simp
qed

lemma start_disciplined:
  "disciplined W (initialize_workers (distribute_parameters n k (start_world W n)))"
proof -
  have "owing W (\<lambda>_. Waiting) = {}" by (simp add: owing_def owes_def)
  then have "ginv W (initialize_workers (distribute_parameters n k (start_world W n))) (\<lambda>_. Waiting)"
    by (simp add: ginv_def initialize_workers_def distribute_parameters_def start_world_def
        gbox_def)
  then show ?thesis unfolding disciplined_def by blast
qed

lemma master_main_disciplined:
  assumes m: "master_main e W n k = Some (Ret (r, wd))" and W: "W < 2147483648"
  shows "active_workers wd = 0 \<and> (\<exists>busy. replay (trace wd) (0, \<lambda>_. False) = Some (0, busy)) \<and>
     terms (trace wd) = [1..<Suc W]"
proof -
  let ?wd0 = "initialize_workers (distribute_parameters n k (start_world W n))"
  let ?f = "master_solution_func e W n k"
  obtain r1 where r1: "nqueens_by_level (mjunk e) (replicate n 0) 0 k ?f ?wd0 = Some r1"
    using m by (auto simp: master_main_def Let_def split: option.splits)
  have d1: "disciplined W (store (state_of r1))"
    using master_solution_func_disciplined[OF W] r1 start_disciplined by (rule nqueens_by_level_store)
  obtain t where t: "r1 = Ret t"
    using m r1 by (cases r1) (auto simp: master_main_def Let_def)
  obtain wd1 where dr: "drain e W (store t) = Some wd1"
    and wd: "wd = terminate_all W wd1\<lparr>solutions := []\<rparr>"
    using m r1 t by (auto simp: master_main_def Let_def split: option.splits)
  from drain_disciplined[OF dr _ W] d1 t have d2: "disciplined W wd1" and a0: "active_workers wd1 = 0"
    by simp_all
  from d2 obtain ws where "ginv W wd1 ws" by (auto simp: disciplined_def)
  then have rp: "replay (trace wd1) (0, \<lambda>_. False) = Some (active_workers wd1, \<lambda>w. w \<in> owing W ws)"
    and tm: "terms (trace wd1) = []"
    unfolding ginv_def by blast+
  have "replay (trace wd) (0, \<lambda>_. False) = Some (0, \<lambda>w. w \<in> owing W ws)"
    unfolding wd using rp a0 by (simp add: terminate_all_def replay_append replay_Terminate)
  moreover have "terms (trace wd) = [1..<Suc W]"
    unfolding wd using tm by (simp add: terminate_all_def terms_append terms_Terminate)
  moreover have "active_workers wd = 0" unfolding wd using a0 by (simp add: terminate_all_def)
  ultimately show ?thesis by blast
qed

lemma master_main_replay:
  assumes m: "master_main e W n k = Some x" and W: "W < 2147483648"
  shows "\<exists>c busy. replay (trace (snd (state_of x))) (0, \<lambda>_. False) = Some (c, busy) \<and> 0 \<le> c"
proof (cases x)
  case (Ret p)
  obtain r wd where p: "p = (r, wd)" by (cases p)
  from master_main_disciplined[OF m[unfolded Ret p] W] show ?thesis
    unfolding Ret p by auto
next
  case (Fault p)
  let ?wd0 = "initialize_workers (distribute_parameters n k (start_world W n))"
  let ?f = "master_solution_func e W n k"
  obtain r1 where r1: "nqueens_by_level (mjunk e) (replicate n 0) 0 k ?f ?wd0 = Some r1"
    using m by (auto simp: master_main_def Let_def split: option.splits)
  have d1: "disciplined W (store (state_of r1))"
    using master_solution_func_disciplined[OF W] r1 start_disciplined by (rule nqueens_by_level_store)
  have "snd p = store (state_of r1)"
    using m r1 Fault by (cases r1) (auto simp: master_main_def Let_def split: option.splits)
  then have "disciplined W (snd (state_of x))" using d1 Fault by simp
  then obtain ws where "ginv W (snd (state_of x)) ws" by (auto simp: disciplined_def)
  then have "replay (trace (snd (state_of x))) (0, \<lambda>_. False)
      = Some (int (card (owing W ws)), \<lambda>w. w \<in> owing W ws)"
    unfolding ginv_def by simp
  then show ?thesis by simp
qed

section \<open>A call with no rows to fill\<close>

lemma ascend_below_stop:
  assumes "ascend ml s = Some t"
  shows "var_k t < var_k s \<and> var_k t \<le> stop_sign s \<longrightarrow> flag t = 1"
proof -
  have "stop_sign t = stop_sign s \<and> var_k t \<le> var_k s \<and> (flag t = flag s \<or> flag t = 1) \<and>
     (var_k t < var_k s \<and> var_k t \<le> stop_sign s \<longrightarrow> flag t = 1)"
  proof (rule ascend.raw_induct[where P = "\<lambda>ml s t. stop_sign t = stop_sign s \<and> var_k t \<le> var_k s \<and>
       (flag t = flag s \<or> flag t = 1) \<and> (var_k t < var_k s \<and> var_k t \<le> stop_sign s \<longrightarrow> flag t = 1)",
        rotated, OF assms])
    fix asc :: "nat \<Rightarrow> 'a frame \<Rightarrow> 'a frame option" and ml s0 t
    assume IH: "\<And>ml s t. asc ml s = Some t \<Longrightarrow> stop_sign t = stop_sign s \<and> var_k t \<le> var_k s \<and>
       (flag t = flag s \<or> flag t = 1) \<and> (var_k t < var_k s \<and> var_k t \<le> stop_sign s \<longrightarrow> flag t = 1)"
      and eq: "(let s = note_read ml (var_k s0) s0 in
         if var_size s - 1 \<le> index s (var_k s)
         then asc ml (s\<lparr>var_k := var_k s - 1, flag := if var_k s - 1 \<le> stop_sign s then 1 else flag s\<rparr>)
         else Some s) = Some t"
    show "stop_sign t = stop_sign s0 \<and> var_k t \<le> var_k s0 \<and>
       (flag t = flag s0 \<or> flag t = 1) \<and> (var_k t < var_k s0 \<and> var_k t \<le> stop_sign s0 \<longrightarrow> flag t = 1)"
    proof (cases "index s0 (var_k s0) < var_size s0 - 1")
      case True
      then have "t = note_read ml (var_k s0) s0"
        using eq by (simp add: Let_def)
      then show ?thesis by simp
    next
      case False
      let ?s = "(note_read ml (var_k s0) s0)\<lparr>var_k := var_k s0 - 1,
          flag := (if var_k s0 - 1 \<le> stop_sign s0 then 1 else flag s0)\<rparr>"
      have "asc ml ?s = Some t"
        using eq False by (simp add: Let_def split: if_splits)
      from IH[OF this] show ?thesis
        by (auto split: if_splits)
    qed
  qed
  then show ?thesis by blast
qed

lemma backtrack_past_block:
  assumes k: "int ml \<le> var_k s" and st: "stop_sign s = int ml - 1"
    and b: "backtrack ml s = Some r"
  shows "store (state_of r) = store s \<and>
     (\<forall>s'. r = Ret s' \<longrightarrow>
        flag s' \<noteq> 0 \<or> int ml \<le> var_k s' \<and> stop_sign s' = int ml - 1 \<and> length (pos s') = length (pos s))"
proof -
  from b obtain t where a: "ascend ml s = Some t" and r: "r = advance ml t"
    by (auto simp: backtrack_def)
  have ks: "store t = store s" "stop_sign t = stop_sign s" "var_k t \<le> var_k s" "pos t = pos s"
    using ascend_keeps[OF a] by simp_all
  have st': "store (state_of r) = store s" using r ks by simp
  show ?thesis
  proof (cases "flag t = 1")
    case True
    then have "r = restart t" using r by (simp add: advance_def)
    then have "\<forall>s'. r = Ret s' \<longrightarrow> flag s' \<noteq> 0"
      using True by (auto simp: restart_def set_j_def split: if_splits)
    then show ?thesis using st' by simp
  next
    case False
    then have "\<not> (var_k t < var_k s \<and> var_k t \<le> stop_sign s)"
      using ascend_below_stop[OF a] by blast
    then have kt: "int ml \<le> var_k t" using k st ks by auto
    have "r = restart (wr_index ml (var_k t) (index t (var_k t) + 1) (note_read ml (var_k t) t))"
      using r False by (simp add: advance_def Let_def)
    then have "\<forall>s'. r = Ret s' \<longrightarrow>
        int ml \<le> var_k s' \<and> stop_sign s' = int ml - 1 \<and> length (pos s') = length (pos s)"
      using kt ks st by (auto simp: restart_def set_j_def split: if_splits)
    then show ?thesis using st' by simp
  qed
qed

lemma place_past_block:
  assumes k: "int ml \<le> var_k s" and ln: "length (pos s) < 2147483648"
    and p: "place ml f s = Some r"
  shows "store (state_of r) = store s \<and>
     (\<forall>s'. r = Ret s' \<longrightarrow>
        int ml \<le> var_k s' \<and> stop_sign s' = stop_sign s \<and> length (pos s') = length (pos s))"
proof (cases "wr_pos ml s")
  case (Fault e)
  then have "r = Fault e" using p by (simp add: place_def)
  moreover have "store e = store s" using wr_pos_store[of ml s] Fault by simp
  ultimately show ?thesis by simp
next
  case (Ret s1)
  then have k1: "var_k s1 = var_k s" and b: "var_k s < int (length (pos s))"
    and st: "store s1 = store s" and l1: "length (pos s1) = length (pos s)"
    and ss: "stop_sign s1 = stop_sign s"
    by (auto simp: wr_pos_def Let_def split: if_splits)
  have k0: "0 \<le> var_k s" using k by simp
  have tu: "to_unsigned (var_k s1) = var_k s" using k1 k0 b ln by simp
  have "usub1 ml \<noteq> var_k s"
  proof (cases "ml = 0")
    case True
    then show ?thesis using b ln by simp
  next
    case False
    then have "usub1 ml = int ml - 1" using k b ln by simp
    then show ?thesis using k by simp
  qed
  then have ne: "to_unsigned (var_k s1) \<noteq> usub1 ml" using tu by simp
  have "r = restart (wr_index ml (var_k s1 + 1) 0 (s1\<lparr>var_k := var_k s1 + 1\<rparr>))"
    using p Ret ne by (simp add: place_def)
  then show ?thesis using st k k1 l1 ss
    by (auto simp: restart_def set_j_def split: if_splits)
qed

lemma body_past_block:
  assumes k: "int ml \<le> var_k s" and st: "stop_sign s = int ml - 1"
    and ln: "length (pos s) < 2147483648"
    and r: "body ml f s = Some r"
  shows "store (state_of r) = store s \<and>
     (\<forall>s'. r = Ret s' \<longrightarrow>
        flag s' \<noteq> 0 \<or> int ml \<le> var_k s' \<and> stop_sign s' = int ml - 1 \<and> length (pos s') < 2147483648)"
proof -
  let ?s = "note_test ml s"
  have f: "var_k ?s = var_k s" "stop_sign ?s = stop_sign s" "pos ?s = pos s" "store ?s = store s"
    by (simp_all add: note_test_def)
  have "body ml f s = backtrack ml ?s \<or> body ml f s = place ml f ?s
    \<or> body ml f s = Some (set_j (?s\<lparr>var_i := var_i ?s + 1\<rparr>))"
    unfolding body_def Let_def by (rule if_three)
  then consider (a) "body ml f s = backtrack ml ?s" | (b) "body ml f s = place ml f ?s"
    | (c) "body ml f s = Some (set_j (?s\<lparr>var_i := var_i ?s + 1\<rparr>))"
    by blast
  then show ?thesis
  proof cases
    case a
    then have "backtrack ml ?s = Some r" using r by simp
    from backtrack_past_block[OF _ _ this] show ?thesis using k st ln f by auto
  next
    case b
    then have "place ml f ?s = Some r" using r by simp
    from place_past_block[OF _ _ this] show ?thesis using k st ln f by auto
  next
    case c
    then have "r = set_j (?s\<lparr>var_i := var_i ?s + 1\<rparr>)" using r by simp
    then show ?thesis using k st ln f by (auto simp: set_j_def split: if_splits)
  qed
qed

lemma search_loop_past_block:
  assumes r: "search_loop ml f s = Some r"
    and k: "int ml \<le> var_k s" and st: "stop_sign s = int ml - 1"
    and ln: "length (pos s) < 2147483648"
  shows "store (state_of r) = store s"
proof -
  let ?J = "\<lambda>s :: 'a frame. flag s \<noteq> 0 \<or>
      int ml \<le> var_k s \<and> stop_sign s = int ml - 1 \<and> length (pos s) < 2147483648"
  have "?J s \<longrightarrow> store (state_of r) = store s"
  proof (rule search_loop.raw_induct[where P = "\<lambda>ml' f' s r. ml' = ml \<and> f' = f \<longrightarrow> ?J s \<longrightarrow> store (state_of r) = store s",
        rotated, OF r, THEN mp])
    fix sl :: "nat \<Rightarrow> (nat list \<Rightarrow> 'a \<Rightarrow> 'a option) \<Rightarrow> 'a frame \<Rightarrow> 'a frame res option"
      and ml' f' s r
    assume IH: "\<And>ml' f' s r. sl ml' f' s = Some r \<Longrightarrow> ml' = ml \<and> f' = f \<longrightarrow> ?J s \<longrightarrow> store (state_of r) = store s"
      and eq: "(if flag s = 0
         then case body ml' f' s of None \<Rightarrow> None | Some (Fault e) \<Rightarrow> Some (Fault e)
              | Some (Ret s') \<Rightarrow> sl ml' f' s'
         else Some (Ret s)) = Some r"
    show "ml' = ml \<and> f' = f \<longrightarrow> ?J s \<longrightarrow> store (state_of r) = store s"
    proof (intro impI)
      assume mf: "ml' = ml \<and> f' = f" and j: "?J s"
      show "store (state_of r) = store s"
      proof (cases "flag s = 0")
        case False
        then show ?thesis using eq by auto
      next
        case True
        then obtain r1 where b: "body ml f s = Some r1"
          and c: "(case r1 of Fault e \<Rightarrow> Some (Fault e) | Ret s' \<Rightarrow> sl ml f s') = Some r"
          using eq mf by (auto split: option.splits)
        have js: "int ml \<le> var_k s" "stop_sign s = int ml - 1" "length (pos s) < 2147483648"
          using j True by simp_all
        note p1 = body_past_block[OF js b]
        show ?thesis
        proof (cases r1)
          case (Fault e)
          then show ?thesis using c p1 by auto
        next
          case (Ret s')
          then have "sl ml f s' = Some r" using c by simp
          from IH[OF this] show ?thesis using p1 Ret by simp
        qed
      qed
    qed
  qed simp
  then show ?thesis using k st ln by simp
qed

lemma nqueens_by_level_empty_range:
  assumes n: "n < 2147483648" and ln: "length ps < 2147483648"
    and r: "nqueens_by_level junk ps n n f c = Some r"
  shows "store (state_of r) = c"
proof -
  let ?s0 = "\<lparr>pos = ps, index = junk, var_i = 0, var_j = 0, var_k = to_signed (int n),
      flag = 0, var_size = to_signed (int (length ps)), stop_sign = 0, store = c, stray = [], wild = []\<rparr>"
  have s0: "store (state_of (for_init n ?s0)) = c" using for_init_store[of n ?s0] by simp
  show ?thesis
  proof (cases "for_init n ?s0")
    case (Fault t)
    then show ?thesis using r s0 by (simp add: nqueens_by_level_def)
  next
    case (Ret s1)
    then have c1: "store s1 = c" using s0 by simp
    have p1: "pos s1 = ps"
    proof (cases "n = 0")
      case True
      then have "for_init n ?s0 = Fault ?s0"
        by (subst for_init.simps) (simp add: in_block_def)
      then show ?thesis using Ret by simp
    next
      case False
      then have "for_init n ?s0 = Ret (?s0\<lparr>index := (\<lambda>l. if int n \<le> l \<and> l < int n then 0 else index ?s0 l), var_k := int n\<rparr>)"
        using n by (intro for_init_result) simp_all
      then show ?thesis using Ret by auto
    qed
    let ?s1 = "s1\<lparr>stop_sign := to_signed (usub1 n), var_k := to_signed (int n)\<rparr>"
    show ?thesis
    proof (cases "restart ?s1")
      case (Fault t)
      then have "r = Fault t" using r Ret by (simp add: nqueens_by_level_def)
      moreover have "store t = c" using restart_store[of ?s1] Fault c1 by simp
      ultimately show ?thesis by simp
    next
      case (Ret s2)
      then have f2: "store s2 = c" "var_k s2 = int n" "stop_sign s2 = int n - 1" "pos s2 = ps"
        using c1 p1 n by (auto simp: restart_def set_j_def to_signed_usub1 split: if_splits)
      have "search_loop n f s2 = Some r"
        using r \<open>for_init n ?s0 = Ret s1\<close> Ret by (simp add: nqueens_by_level_def)
      from search_loop_past_block[OF this] show ?thesis using f2 ln by simp
    qed
  qed
qed

section \<open>When the master enumerates every row\<close>

lemma take_report_unanswered:
  assumes "unanswered n wd" "inbox wd w \<noteq> []"
  shows "unanswered n (take_report w wd)"
proof -
  have "hd (inbox wd w) \<in> set (inbox wd w)" using assms(2) by simp
  then have h: "fst (hd (inbox wd w)) \<noteq> solution_ready"
    using assms(1) unfolding unanswered_def by blast
  have t: "set (tl (inbox wd w)) \<subseteq> set (inbox wd w)"
    using assms(2) by (cases "inbox wd w") auto
  have s: "solutions (take_report w wd) = solutions wd"
    using h by (simp add: take_report_def Let_def remove_worker_def)
  have i: "inbox (take_report w wd) = (inbox wd)(w := tl (inbox wd w))"
    by (simp add: take_report_def Let_def remove_worker_def)
  have p: "wpos (take_report w wd) = wpos wd"
    by (simp add: take_report_def Let_def remove_worker_def)
  show ?thesis
    unfolding unanswered_def s i p using assms(1) t unfolding unanswered_def by auto
qed

lemma worker_work_unanswered:
  assumes n: "n < 2147483648" and u: "unanswered n wd"
  shows "unanswered n (worker_work e n n w unit wd)"
proof (cases "length unit \<le> n")
  case False
  then show ?thesis using u by (simp add: worker_work_def)
next
  case True
  let ?ps = "unit @ drop (length unit) (wpos wd w)"
  let ?wd1 = "wd\<lparr>wpos := (wpos wd)(w := ?ps)\<rparr>"
  have lw: "length (wpos wd w) = n" using u unfolding unanswered_def by blast
  have lp: "length ?ps = n" using True lw by simp
  have u1: "unanswered n ?wd1" using u lp unfolding unanswered_def by simp
  show ?thesis
  proof (cases "nqueens_by_level (wjunk e unit) ?ps n n worker_solution_func []")
    case None
    then show ?thesis using True u1 by (simp add: worker_work_def Let_def)
  next
    case (Some r)
    show ?thesis
    proof (cases r)
      case (Fault t)
      then show ?thesis using True u1 Some by (simp add: worker_work_def Let_def)
    next
      case (Ret t)
      have lt: "length ?ps < 2147483648" unfolding lp by (rule n)
      have "store (state_of r) = []"
        using n lt Some by (rule nqueens_by_level_empty_range)
      then have st: "store t = []" using Ret by simp
      have "worker_work e n n w unit wd
          = ?wd1\<lparr>inbox := (inbox ?wd1)(w := inbox ?wd1 w @ [(no_solution_ready, [])])\<rparr>"
        using True Some Ret st by (simp add: worker_work_def Let_def)
      then show ?thesis using u1 unfolding unanswered_def
        by (auto simp: no_solution_ready_def solution_ready_def)
    qed
  qed
qed

lemma master_solution_func_unanswered:
  assumes n: "n < 2147483648"
  shows "kept_by (unanswered n) (master_solution_func e W n n)"
  unfolding kept_by_def
proof (intro allI impI)
  fix x wd wd'
  assume u: "unanswered n wd" and m: "master_solution_func e W n n x wd = Some wd'"
  from m obtain w wd1 where r: "recieve_solution e W wd = Some (w, wd1)"
    by (auto simp: master_solution_func_def split: option.splits)
  from recieve_solution_Some[OF r] have ne: "inbox wd w \<noteq> []" and wd1: "wd1 = take_report w wd"
    by simp_all
  have u1: "unanswered n wd1" unfolding wd1 using u ne by (rule take_report_unanswered)
  have u2: "unanswered n (worker_work e n n w x wd1)" using n u1 by (rule worker_work_unanswered)
  have "wd' = (add_worker (worker_work e n n w x wd1))\<lparr>trace :=
      trace (add_worker (worker_work e n n w x wd1)) @
      [Work w x (active_workers (add_worker (worker_work e n n w x wd1)))]\<rparr>"
    using m r by (simp add: master_solution_func_def Let_def)
  then show "unanswered n wd'" using u2 by (simp add: unanswered_def add_worker_def)
qed

lemma drain_unanswered:
  assumes "drain e W wd = Some wd'" "unanswered n wd"
  shows "unanswered n wd'"
proof -
  have "unanswered n wd \<longrightarrow> unanswered n wd'"
  proof (rule drain.raw_induct[where P = "\<lambda>e' W' wd wd'. unanswered n wd \<longrightarrow> unanswered n wd'",
        rotated, OF assms(1)])
    fix dr :: "env \<Rightarrow> nat \<Rightarrow> world \<Rightarrow> world option" and e' W' wd wd'
    assume IH: "\<And>e' W' wd wd'. dr e' W' wd = Some wd' \<Longrightarrow> unanswered n wd \<longrightarrow> unanswered n wd'"
      and eq: "(if 0 < active_workers wd
           then case recieve_solution e' W' wd of None \<Rightarrow> None | Some (w, wd') \<Rightarrow> dr e' W' wd'
           else Some wd) = Some wd'"
    show "unanswered n wd \<longrightarrow> unanswered n wd'"
    proof (intro impI)
      assume a: "unanswered n wd"
      show "unanswered n wd'"
      proof (cases "0 < active_workers wd")
        case False
        then show ?thesis using eq a by simp
      next
        case True
        then obtain w wd1 where r: "recieve_solution e' W' wd = Some (w, wd1)"
          and d: "dr e' W' wd1 = Some wd'"
          using eq by (auto split: option.splits)
        from recieve_solution_Some[OF r] have "unanswered n wd1"
          using a by (simp add: take_report_unanswered)
        then show ?thesis using IH[OF d] by simp
      qed
    qed
  qed
  then show ?thesis using assms(2) by simp
qed

lemma master_main_no_split:
  assumes n: "n < 2147483648" and m: "master_main e W n n = Some (Ret (r, wd))"
  shows "r = []"
proof -
  let ?wd0 = "initialize_workers (distribute_parameters n n (start_world W n))"
  let ?f = "master_solution_func e W n n"
  obtain r1 where r1: "nqueens_by_level (mjunk e) (replicate n 0) 0 n ?f ?wd0 = Some r1"
    using m by (auto simp: master_main_def Let_def split: option.splits)
  have u0: "unanswered n ?wd0"
    by (simp add: unanswered_def initialize_workers_def distribute_parameters_def start_world_def
        initial_ready_def solution_ready_def)
  have d1: "unanswered n (store (state_of r1))"
    using master_solution_func_unanswered[OF n] r1 u0 by (rule nqueens_by_level_store)
  obtain t where t: "r1 = Ret t"
    using m r1 by (cases r1) (auto simp: master_main_def Let_def)
  obtain wd1 where dr: "drain e W (store t) = Some wd1"
    and rr: "r = solutions (terminate_all W wd1)"
    using m r1 t by (auto simp: master_main_def Let_def split: option.splits)
  from drain_unanswered[OF dr] d1 t have "unanswered n wd1" by simp
  then show ?thesis unfolding rr by (simp add: unanswered_def terminate_all_def)
qed

lemma outcome_returned:
  assumes "outcome r = Some (True, a, tr)"
  shows "\<exists>wd. r = Some (Ret (a, wd))"
proof -
  from assms obtain x where x: "r = Some x" by (cases r) (auto simp: outcome_def)
  show ?thesis
  proof (cases x)
    case (Fault p)
    then show ?thesis using assms x by (cases p) (simp add: outcome_def)
  next
    case (Ret p)
    then show ?thesis using assms x by (cases p) (simp add: outcome_def)
  qed
qed

lemma master_main_no_levels:
  "master_main e W n 0 = Some x \<Longrightarrow> \<exists>wd. x = Fault ([], wd)"
  by (auto simp: master_main_def nqueens_by_level_def Let_def for_init.simps[of 0] in_block_def
      split: option.splits res.splits)

lemma worker_work_unit:
  assumes "wp_sols w = []" "wp_pos w = wpos wd r" "worker_unit (wjunk e) n k u w = Some (Ret w')"
  shows "worker_work e n k r u wd =
     wd\<lparr>wpos := (wpos wd)(r := wp_pos w'), inbox := (inbox wd)(r := inbox wd r @ [last (wp_sent w')])\<rparr>"
  using assms
  by (auto simp: worker_work_def worker_unit_def Let_def split: if_splits option.splits res.splits)

text \<open>
  Runs of the master with one worker at \<open>k = n = 1\<close>, at \<open>k = 0\<close> and at \<open>k = n = 4\<close>, and the
  sequential solver on the same boards.
\<close>

lemma split_runs:
  "outcome (master_main \<lparr>sched = (\<lambda>_. 0), mjunk = (\<lambda>_. - 1),
        wjunk = (\<lambda>_ l. if 0 \<le> l then 0 else - 1)\<rparr> 1 1 1)
     = Some (True, [], [Bcast_n 1, Bcast_k 1, Ready 1 1 0, Work 1 [0] 1, Ready 1 3 0, Terminate 1])"
  "outcome (master_main \<lparr>sched = (\<lambda>_. 0), mjunk = (\<lambda>_. - 1),
        wjunk = (\<lambda>_ l. if 0 \<le> l then 0 else - 1)\<rparr> 1 1 0)
     = Some (False, [], [Bcast_n 1, Bcast_k 0])"
  "outcome (master_main \<lparr>sched = (\<lambda>_. 0), mjunk = (\<lambda>_. 0), wjunk = (\<lambda>_ _. 0)\<rparr> 1 4 4)
     = Some (True, [], [Bcast_n 4, Bcast_k 4, Ready 1 1 0, Work 1 [1, 3, 0, 2] 1, Ready 1 3 0,
          Work 1 [2, 0, 3, 1] 1, Ready 1 3 0, Terminate 1])"
  "nqueens (\<lambda>_. - 1) 1 [] = Some (Ret ([0], []))"
  "nqueens (\<lambda>_. 0) 4 [] = Some (Ret ([1, 3, 0, 2, 2, 0, 3, 1], []))"
  by code_simp+

text \<open>
  What a worker does with the first of them at \<open>k = n = 4\<close>, on a heap of zeros: the cursor
  cell \<^verbatim>\<open>index[4]\<close>, one past the block, is written three times, and the call returns
  having reported nothing.
\<close>

lemma full_board_run:
  "(case nqueens_by_level (\<lambda>_. 0) [1, 3, 0, 2] 4 4 log_callback [] of
      Some (Ret t) \<Rightarrow> store t = [] \<and> wild t = [4, 4, 4] \<and> flag t = 1 \<and> var_k t = 3
    | _ \<Rightarrow> False)"
  by code_simp

section \<open>The loop of a worker on the model\<close>

lemma worker_loop_append:
  assumes "\<forall>p \<in> set pre. keep_working p = working"
  shows "worker_loop wj n k (pre @ rest) w =
     (case worker_loop wj n k pre w of Polling w' \<Rightarrow> worker_loop wj n k rest w' | r \<Rightarrow> r)"
  using assms
proof (induction pre arbitrary: w)
  case Nil
  then show ?case by simp
next
  case (Cons p pre)
  then show ?case by (auto split: option.splits res.splits)
qed

lemma worker_unit_units:
  "worker_unit wj n k u w = Some (Ret w') \<Longrightarrow>
     wp_units w' = wp_units w @ [u] \<and> length (wp_sent w') = Suc (length (wp_sent w))"
  by (auto simp: worker_unit_def Let_def split: if_splits option.splits res.splits)

lemma worker_loop_units:
  assumes "\<forall>p \<in> set pre. keep_working p = working" "worker_loop wj n k pre w = Polling w'"
  shows "wp_units w' = wp_units w @ List.map_filter arrived pre \<and>
     length (wp_sent w') = length (wp_sent w) + length (List.map_filter arrived pre)"
  using assms
proof (induction pre arbitrary: w)
  case Nil
  then show ?case by simp
next
  case (Cons p pre)
  show ?case
  proof (cases "arrived p")
    case None
    then show ?thesis using Cons by simp
  next
    case (Some u)
    then obtain w1 where u: "worker_unit wj n k u w = Some (Ret w1)"
      and l: "worker_loop wj n k pre w1 = Polling w'"
      using Cons.prems by (auto split: option.splits res.splits)
    from Cons.IH[OF _ l] Cons.prems(1) worker_unit_units[OF u] Some
    show ?thesis by simp
  qed
qed

lemma worker_loop_working:
  assumes "\<forall>p \<in> set pre. keep_working p = working"
  shows "worker_loop wj n k pre w \<noteq> Exited w'"
  using assms
  by (induction pre arbitrary: w) (auto split: option.splits res.splits)

lemma worker_run_example:
  "worker_main (\<lambda>_ _. - 1) 4 1
     [\<lparr>keep_working = working, arrived = None\<rparr>, \<lparr>keep_working = working, arrived = Some [1]\<rparr>]
   = Polling \<lparr>wp_pos = [1, 0, 0, 0], wp_sols = [], wp_sent = [(1, []), (2, [1, 3, 0, 2])],
        wp_units = [[1]], work_request = Posted\<rparr>"
  by code_simp

section \<open>Claims about the enumerator\<close>

lemma extensions_1: "extensions 1 1 [] = [[0]]"
  by (simp add: safe_def)

lemma extensions_4: "extensions 4 4 [] = [[1, 3, 0, 2], [2, 0, 3, 1]]"
  by code_simp

lemma extensions_8: "length (extensions 8 8 []) = 92"
  by code_simp

text \<open>
  C1.  The claim: for every \<open>n \<ge> 1\<close>, \<open>nqueens n\<close> produces the known number of solutions.
  The code: \<open>nqueens n\<close> runs the enumerator with \<open>start_level = 0\<close> and \<open>max_level = n\<close> on the
  all-zero board, and after the last solution the final descent of \<open>ascend\<close> leaves the cursor
  array (C4).  The call returns exactly when that descent comes upon a cell below the array that
  holds less than \<open>n - 1\<close> (\<open>halts\<close>), and returns the right number of solutions then; otherwise
  it never returns.  For \<open>n = 1\<close> the descent stops at a negative cell only: on a heap without
  one \<open>nqueens 1\<close> does not return, where the claim has it produce the one solution there is.
\<close>

theorem nqueens_solution_count:
  assumes "1 \<le> n" "n < 2147483648"
  shows "(halts junk 0 n \<longrightarrow>
        (\<exists>flat. nqueens junk n [] = Some (Ret (flat, [])) \<and> length flat div n = card (placements n))) \<and>
     (\<not> halts junk 0 n \<longrightarrow> nqueens junk n [] = None) \<and>
     ((\<forall>l. 0 \<le> junk l) \<longrightarrow> nqueens junk 1 [] = None) \<and>
     card (placements 1) = 1 \<and> card (placements 4) = 2 \<and> card (placements 8) = 92"
proof (intro conjI impI)
  assume h: "halts junk 0 n"
  have "length (concat (extensions n n [])) div n = card (placements n)"
    using assms(1) by (simp add: length_concat_extensions length_extensions_card)
  then show "\<exists>flat. nqueens junk n [] = Some (Ret (flat, [])) \<and> length flat div n = card (placements n)"
    using nqueens_returns_all[OF assms h, of "[]"] by simp
next
  assume "\<not> halts junk 0 n"
  with assms show "nqueens junk n [] = None" by (rule nqueens_never_returns)
next
  assume "\<forall>l. 0 \<le> junk l"
  then have "\<not> halts junk 0 1" by (simp add: halts_def not_less)
  then show "nqueens junk 1 [] = None" by (intro nqueens_never_returns) simp_all
next
  have "length (extensions 1 1 []) = 1" unfolding extensions_1 by simp
  then show "card (placements 1) = 1" unfolding length_extensions_card .
  show "card (placements 4) = 2"
    by (simp add: length_extensions_card[symmetric] extensions_4)
  show "card (placements 8) = 92"
    by (simp add: length_extensions_card[symmetric] extensions_8)
qed

theorem nqueens_solution_count_witness:
  "(\<exists>flat. nqueens (\<lambda>_. - 1) 4 [] = Some (Ret (flat, [])) \<and> length flat div 4 = card (placements 4)) \<and>
   nqueens (\<lambda>_. 0) 1 [] = None \<and> card (placements 1) = 1"
  using nqueens_solution_count[of 4 "\<lambda>_. - 1"] nqueens_solution_count[of 1 "\<lambda>_. 0"]
  by (simp add: halts_def)

text \<open>
  C3.  When the loop is about to examine column \<open>c\<close> at row \<open>k = length ps\<close> below the rows
  \<open>ps\<close> (\<open>cand\<close>), it goes on to keep the column (\<open>place\<close>, line 104) exactly when every row
  \<open>i < k\<close> holds a column different from \<open>c\<close> and not on a diagonal with it, and to
  \<open>backtrack\<close> otherwise.  The clause \<^verbatim>\<open>i==k\<close> of the test of line 86 never changes the value
  of the test, for it is true only where the conjunct \<^verbatim>\<open>i<=k-1\<close> is false.  It is not always
  false: the examination starts with \<open>i = 0\<close>, which is \<open>k\<close> at row 0 and only there.
\<close>

theorem attack_check_accepts:
  assumes "cand ml sz stp lg I ps c s"
  shows "(\<exists>i' j'. search_loop ml f s =
       resume ml f
         (if (\<forall>i<length ps. ps ! i \<noteq> c \<and> \<bar>int i - int (length ps)\<bar> \<noteq> \<bar>int (ps ! i) - int c\<bar>)
          then place ml f (s\<lparr>var_i := i', var_j := j'\<rparr>)
          else backtrack ml (s\<lparr>var_i := i', var_j := j'\<rparr>))) \<and>
     (\<forall>i j k c'. attack_test i j k c' \<longleftrightarrow> (j = c' \<or> \<bar>i - k\<bar> = \<bar>j - c'\<bar>) \<and> i \<le> k - 1) \<and>
     (var_i s = var_k s \<longleftrightarrow> ps = [])"
proof -
  have "safe ps c \<longleftrightarrow>
      (\<forall>i<length ps. ps ! i \<noteq> c \<and> \<bar>int i - int (length ps)\<bar> \<noteq> \<bar>int (ps ! i) - int c\<bar>)"
    by (auto simp: safe_def)
  then have "\<exists>i' j'. search_loop ml f s =
       resume ml f
         (if (\<forall>i<length ps. ps ! i \<noteq> c \<and> \<bar>int i - int (length ps)\<bar> \<noteq> \<bar>int (ps ! i) - int c\<bar>)
          then place ml f (s\<lparr>var_i := i', var_j := j'\<rparr>)
          else backtrack ml (s\<lparr>var_i := i', var_j := j'\<rparr>))"
    using first_row[OF assms, of f] by (simp only:)
  moreover have "\<forall>i j k c'. attack_test i j k c' \<longleftrightarrow> (j = c' \<or> \<bar>i - k\<bar> = \<bar>j - c'\<bar>) \<and> i \<le> k - 1"
    by (auto simp: attack_test_def)
  moreover have "var_i s = var_k s \<longleftrightarrow> ps = []"
    using assms by (auto simp: cand_def at_level_def)
  ultimately show ?thesis by blast
qed

theorem attack_check_accepts_witness:
  "cand 2 3 (- 1) [] (\<lambda>_. 0) [0] 2
     \<lparr>pos = [0, 0, 0], index = (\<lambda>l. if l = 1 then 2 else 0), var_i = 0, var_j = 0, var_k = 1,
        flag = 0, var_size = 3, stop_sign = - 1, store = [] :: nat list list, stray = [], wild = []\<rparr> \<and>
   (\<exists>i' j'. search_loop 2 log_callback
       \<lparr>pos = [0, 0, 0], index = (\<lambda>l. if l = 1 then 2 else 0), var_i = 0, var_j = 0, var_k = 1,
          flag = 0, var_size = 3, stop_sign = - 1, store = [], stray = [], wild = []\<rparr> =
     resume 2 log_callback
       (place 2 log_callback
          \<lparr>pos = [0, 0, 0], index = (\<lambda>l. if l = 1 then 2 else 0), var_i = i', var_j = j', var_k = 1,
             flag = 0, var_size = 3, stop_sign = - 1, store = [], stray = [], wild = []\<rparr>))"
proof -
  let ?s = "\<lparr>pos = [0, 0, 0], index = (\<lambda>l. if l = 1 then 2 else 0), var_i = 0, var_j = 0, var_k = 1,
        flag = 0, var_size = 3, stop_sign = - 1, store = [], stray = [], wild = []\<rparr> :: nat list list frame"
  have c: "cand 2 3 (- 1) [] (\<lambda>_. 0) [0] 2 ?s"
    by (simp add: cand_def at_level_def)
  show ?thesis
    using c attack_check_accepts[OF c, of log_callback] by auto
qed

text \<open>
  The first test of the run on the one-row board is made in the state \<open>s\<close> below, with
  \<open>i = k = 0\<close>: the clause \<^verbatim>\<open>i==k\<close> is true, and the test is false by \<^verbatim>\<open>i<=k-1\<close> alone.
\<close>

theorem clause_true_at_row_0_counterexample:
  "(let s = \<lparr>pos = [0], index = (\<lambda>_. - 1)(0 := 0), var_i = 0, var_j = 0, var_k = 0,
        flag = 0, var_size = 1, stop_sign = - 1, store = [] :: nat list list, stray = [], wild = []\<rparr>
    in nqueens_by_level (\<lambda>_. - 1) [0] 0 1 log_callback [] = search_loop 1 log_callback s \<and>
       search_loop 1 log_callback s = resume 1 log_callback (body 1 log_callback s) \<and>
       var_i s = var_k s \<and>
       \<not> attack_test (var_i s) (var_j s) (var_k s) (index s (var_k s)))"
  by (simp add: Let_def nqueens_by_level_def for_init.simps[of "Suc 0"] in_block_def restart_def
      set_j_def to_signed_def usub1_def to_unsigned_def search_loop_step attack_test_def)

text \<open>
  C4.  The claim: with \<open>start_level < max_level\<close>, ascending past row \<open>start_level - 1\<close> is
  detected as exhaustion and makes the procedure return, and every access to the cursor array
  is at an index within \<open>[0, max_level)\<close>.  The code: for the one-row board (\<open>pos = [0]\<close>,
  \<open>start_level = 0\<close>, \<open>max_level = 1\<close>) the solution \<open>[0]\<close> is reported, \<open>k\<close> drops to \<open>-1\<close> and
  \<open>flag\<close> is set, and then the condition of the \<^verbatim>\<open>while\<close> at line 110 is evaluated once more
  and reads \<^verbatim>\<open>index[-1]\<close>, outside the one-cell block.  Here the heap holds \<open>-1\<close> there, so
  the descent stops at once; in a heap of zeros it never stops (\<open>nqueens_one_never_returns\<close>).
\<close>

theorem ascend_reads_below_block:
  "(case nqueens_by_level (\<lambda>_. - 1) [0] 0 1 add_solution_callback [] of
      Some (Ret t) \<Rightarrow> store t = [0] \<and> flag t = 1 \<and> var_k t = - 1 \<and> stray t = [- 1]
    | _ \<Rightarrow> False)"
  by code_simp

lemma empty_range_run:
  "(case nqueens_by_level (\<lambda>l. if 0 \<le> l then 0 else - 1) [0] 1 1 log_callback [] of
      Some (Ret t) \<Rightarrow> stray t = [1, 1, - 1] \<and> flag t = 1
    | _ \<Rightarrow> False)"
  by code_simp

text \<open>
  C5.  The claim: called with \<open>start_level = max_level\<close>, the procedure reports the empty range
  as the sole solution and returns.  The code: whatever the board, the heap and the callback,
  a call with \<open>start_level = max_level\<close> that comes to an end leaves the callback's state as it
  was, so it has reported nothing.  For \<open>pos = [0]\<close>, \<open>start_level = max_level = 1\<close> the first
  test reads \<^verbatim>\<open>index[1]\<close>, one past the block; with zeros there and above, the column is
  taken for attacked, \<open>k\<close> drops to \<open>0 = stop_sign\<close>, \<open>flag\<close> is set, and the call returns.
\<close>

theorem empty_range_not_reported:
  assumes "n < 2147483648" "length ps < 2147483648"
  shows "(\<forall>r. nqueens_by_level junk ps n n f c = Some r \<longrightarrow> store (state_of r) = c) \<and>
     (case nqueens_by_level (\<lambda>l. if 0 \<le> l then 0 else - 1) [0] 1 1 log_callback [] of
        Some (Ret t) \<Rightarrow> stray t = [1, 1, - 1] \<and> flag t = 1
      | _ \<Rightarrow> False)"
proof (intro conjI allI impI)
  fix r assume "nqueens_by_level junk ps n n f c = Some r"
  then show "store (state_of r) = c" by (rule nqueens_by_level_empty_range[OF assms])
qed (rule empty_range_run)

theorem empty_range_not_reported_witness:
  "\<exists>t. nqueens_by_level (\<lambda>l. if 0 \<le> l then 0 else - 1) [0] 1 1 log_callback [] = Some (Ret t) \<and>
     store t = [] \<and> stray t = [1, 1, - 1] \<and> flag t = 1"
  using empty_range_not_reported[of 1 "[0]" "\<lambda>l. if 0 \<le> l then 0 else - 1" log_callback "[]"]
  by (auto split: option.splits res.splits)

text \<open>
  C6.  For a call with \<open>start_level < max_level \<le> size\<close> that returns, the solutions handed to
  the callback, read over the rows from \<open>start_level\<close> on, are in strictly ascending
  lexicographic order: the logging callback ends with that list, and for every callback the
  call does what \<open>emit_all\<close> does with that list.
\<close>

theorem reported_in_lexicographic_order:
  assumes lv: "start_level < max_level" "max_level \<le> length ps"
    and sz: "length ps < 2147483648"
    and pre: "\<forall>x \<in> set (take start_level ps). x < 2147483648"
    and h: "halts junk start_level (length ps)"
  shows "\<exists>xs. sorted_wrt lex_less (map (drop start_level) xs) \<and>
     (\<exists>t. nqueens_by_level junk ps start_level max_level log_callback [] = Some (Ret t) \<and> store t = xs) \<and>
     (\<forall>f c. case emit_all f xs c of
          None \<Rightarrow> nqueens_by_level junk ps start_level max_level f c = None
        | Some c' \<Rightarrow> (\<exists>t. nqueens_by_level junk ps start_level max_level f c = Some (Ret t) \<and> store t = c'))"
proof -
  let ?xs = "extensions (length ps) (max_level - start_level) (take start_level ps)"
  have len: "length (take start_level ps) = start_level" using lv by simp
  have "sorted_wrt (\<lambda>x y. lex_less (drop (length (take start_level ps)) x)
      (drop (length (take start_level ps)) y)) ?xs"
    by (rule sorted_extensions)
  then have 1: "sorted_wrt lex_less (map (drop start_level) ?xs)"
    unfolding len by (simp add: sorted_wrt_map)
  have gen: "case emit_all f ?xs c of
       None \<Rightarrow> nqueens_by_level junk ps start_level max_level f c = None
     | Some c' \<Rightarrow> (\<exists>t. nqueens_by_level junk ps start_level max_level f c = Some (Ret t) \<and> store t = c')"
    for f :: "nat list \<Rightarrow> 'b \<Rightarrow> 'b option" and c
    using nqueens_by_level_result[OF lv sz pre h, of f c] by (auto split: option.splits)
  have 2: "\<exists>t. nqueens_by_level junk ps start_level max_level log_callback [] = Some (Ret t) \<and> store t = ?xs"
    using nqueens_by_level_result[OF lv sz pre h, of log_callback "[]"] by (auto simp: emit_all_log)
  show ?thesis using 1 2 gen by blast
qed

theorem reported_in_lexicographic_order_witness:
  "\<exists>xs. sorted_wrt lex_less (map (drop 0) xs) \<and>
     (\<exists>t. nqueens_by_level (\<lambda>_. - 1) [0, 0, 0, 0] 0 4 log_callback [] = Some (Ret t) \<and> store t = xs)"
proof -
  have "halts (\<lambda>_. - 1) 0 (length [0::nat, 0, 0, 0])" by (simp add: halts_def)
  from reported_in_lexicographic_order[of 0 4 "[0, 0, 0, 0]" "\<lambda>_. - 1", OF _ _ _ _ this]
  show ?thesis by auto
qed

text \<open>
  C10.  Whenever \<open>nqueens n\<close> returns it leaves the solution store empty, so that of two
  consecutive calls that return the second starts from the empty store and returns what the
  first returned; and for \<open>n \<ge> 1\<close> both calls do return when the final descent stops.
\<close>

theorem nqueens_leaves_store_empty:
  assumes "n < 2147483648"
  shows "(nqueens junk n sols = Some (Ret (r, s)) \<longrightarrow> s = []) \<and>
     (nqueens junk1 n [] = Some (Ret (r1, s1)) \<and> nqueens junk2 n s1 = Some (Ret (r2, s2)) \<longrightarrow>
        r1 = r2 \<and> s1 = [] \<and> s2 = []) \<and>
     (1 \<le> n \<and> halts junk1 0 n \<and> halts junk2 0 n \<longrightarrow>
        (\<exists>r. nqueens junk1 n [] = Some (Ret (r, [])) \<and> nqueens junk2 n [] = Some (Ret (r, []))))"
  by (auto simp: nqueens_cases[OF assms] split: if_splits)

theorem nqueens_leaves_store_empty_witness:
  "\<exists>r. nqueens (\<lambda>_. - 1) 4 [] = Some (Ret (r, [])) \<and> nqueens (\<lambda>_. - 2) 4 [] = Some (Ret (r, []))"
  using nqueens_leaves_store_empty[of 4 "\<lambda>_. - 1" "[]" "[]" "[]" "\<lambda>_. - 1" "[]" "[]" "\<lambda>_. - 2" "[]" "[]"]
  by (simp add: halts_def)

section \<open>Claims about the protocol\<close>

text \<open>
  The runs of the master are those of \<open>master_main e W n k\<close>, over every environment \<open>e\<close>:
  the order in which the reports of the workers reach the master, and the content of the
  heap around the cursor array of each enumeration.
\<close>

text \<open>
  C2.  The claim: for \<open>0 \<le> k \<le> n\<close> the master aggregates the set of solutions of the
  sequential solver.  The code: for \<open>0 < k < n\<close> it does, in whatever order the reports arrive,
  when each enumeration is on a heap at which its final descent stops (\<open>halts\<close>).  With \<open>k = n\<close>
  every worker's enumeration starts at \<open>start_level = max_level\<close> and reports nothing (C5), so
  whenever the master returns it returns no solution at all, on any heap and in any order of the
  reports: with \<open>n = 1\<close> and with \<open>n = 4\<close> the runs below return \<open>[]\<close> and the full trace, where
  \<open>nqueens\<close> returns one and two solutions.  With \<open>k = 0\<close> the master's own enumeration has a
  cursor array of no cells, and the run never comes to a normal end.
\<close>

theorem protocol_loses_solutions_at_ends:
  assumes W: "1 \<le> W" "W < 2147483648" and n: "0 < n" "n < 2147483648"
  shows "(0 < k \<and> k < n \<and> halts (mjunk e) 0 n \<and> (\<forall>u. halts (wjunk e u) k n) \<and> halts sjunk 0 n \<longrightarrow>
        (\<exists>r wd flat. master_main e W n k = Some (Ret (r, wd)) \<and>
           nqueens sjunk n [] = Some (Ret (flat, [])) \<and> set (chunks n r) = set (chunks n flat))) \<and>
     (\<forall>r wd. master_main e W n n = Some (Ret (r, wd)) \<longrightarrow> r = []) \<and>
     (\<forall>x. master_main e W n 0 = Some x \<longrightarrow> (\<exists>wd. x = Fault ([], wd))) \<and>
     outcome (master_main \<lparr>sched = (\<lambda>_. 0), mjunk = (\<lambda>_. - 1),
          wjunk = (\<lambda>_ l. if 0 \<le> l then 0 else - 1)\<rparr> 1 1 1)
       = Some (True, [], [Bcast_n 1, Bcast_k 1, Ready 1 1 0, Work 1 [0] 1, Ready 1 3 0, Terminate 1]) \<and>
     nqueens (\<lambda>_. - 1) 1 [] = Some (Ret ([0], [])) \<and>
     outcome (master_main \<lparr>sched = (\<lambda>_. 0), mjunk = (\<lambda>_. 0), wjunk = (\<lambda>_ _. 0)\<rparr> 1 4 4)
       = Some (True, [], [Bcast_n 4, Bcast_k 4, Ready 1 1 0, Work 1 [1, 3, 0, 2] 1, Ready 1 3 0,
            Work 1 [2, 0, 3, 1] 1, Ready 1 3 0, Terminate 1]) \<and>
     nqueens (\<lambda>_. 0) 4 [] = Some (Ret ([1, 3, 0, 2, 2, 0, 3, 1], [])) \<and>
     outcome (master_main \<lparr>sched = (\<lambda>_. 0), mjunk = (\<lambda>_. - 1),
          wjunk = (\<lambda>_ l. if 0 \<le> l then 0 else - 1)\<rparr> 1 1 0)
       = Some (False, [], [Bcast_n 1, Bcast_k 0])"
proof -
  have a: "\<exists>r wd flat. master_main e W n k = Some (Ret (r, wd)) \<and>
           nqueens sjunk n [] = Some (Ret (flat, [])) \<and> set (chunks n r) = set (chunks n flat)"
    if nk: "0 < k" "k < n" and hm: "halts (mjunk e) 0 n" and hw: "\<forall>u. halts (wjunk e u) k n"
      and hs: "halts sjunk 0 n"
  proof -
    from master_main_result[OF W nk n(2) hm hw] obtain wd fin where
      m: "master_main e W n k = Some (Ret (concat (map (batch_of n k) fin), wd))"
      and f: "set fin = set (extensions n k [])" by blast
    have kn: "k \<le> n" using nk by simp
    have s: "nqueens sjunk n [] = Some (Ret (concat (extensions n n []), []))"
      using nqueens_returns_all[of n sjunk "[]"] n hs by simp
    have "\<forall>x \<in> set (extensions n n []). length x = n"
      using extensions_length[of _ n n "[]"] by simp
    then have "chunks n (concat (extensions n n [])) = extensions n n []"
      by (rule chunks_concat[OF n(1)])
    then have "set (chunks n (concat (map (batch_of n k) fin))) = set (chunks n (concat (extensions n n [])))"
      using protocol_solution_set[OF n(1) kn f] by simp
    then show ?thesis using m s by blast
  qed
  have b: "\<forall>r wd. master_main e W n n = Some (Ret (r, wd)) \<longrightarrow> r = []"
    using master_main_no_split[OF n(2)] by blast
  have c: "\<forall>x. master_main e W n 0 = Some x \<longrightarrow> (\<exists>wd. x = Fault ([], wd))"
    using master_main_no_levels by blast
  show ?thesis using a b c split_runs by (intro conjI impI) blast+
qed

theorem protocol_loses_solutions_at_ends_witness:
  "(\<exists>r wd flat.
     master_main \<lparr>sched = (\<lambda>t. 3 * t + 1), mjunk = (\<lambda>_. - 1), wjunk = (\<lambda>_ _. - 1)\<rparr> 2 4 1
       = Some (Ret (r, wd)) \<and>
     nqueens (\<lambda>_. - 1) 4 [] = Some (Ret (flat, [])) \<and> set (chunks 4 r) = set (chunks 4 flat)) \<and>
   (\<exists>wd. master_main \<lparr>sched = (\<lambda>_. 0), mjunk = (\<lambda>_. 0), wjunk = (\<lambda>_ _. 0)\<rparr> 1 4 4
       = Some (Ret ([], wd))) \<and>
   nqueens (\<lambda>_. 0) 4 [] = Some (Ret ([1, 3, 0, 2, 2, 0, 3, 1], []))"
proof -
  let ?e = "\<lparr>sched = (\<lambda>t. 3 * t + 1), mjunk = (\<lambda>_. - 1), wjunk = (\<lambda>_ _. - 1)\<rparr>"
  let ?z = "\<lparr>sched = (\<lambda>_. 0), mjunk = (\<lambda>_. 0), wjunk = (\<lambda>_ _. 0)\<rparr>"
  note t = protocol_loses_solutions_at_ends[of 2 4 1 ?e "\<lambda>_. - 1"]
  have a: "\<exists>r wd flat. master_main ?e 2 4 1 = Some (Ret (r, wd)) \<and>
     nqueens (\<lambda>_. - 1) 4 [] = Some (Ret (flat, [])) \<and> set (chunks 4 r) = set (chunks 4 flat)"
    using t by (simp add: halts_def)
  have o: "outcome (master_main ?z 1 4 4)
       = Some (True, [], [Bcast_n 4, Bcast_k 4, Ready 1 1 0, Work 1 [1, 3, 0, 2] 1, Ready 1 3 0,
            Work 1 [2, 0, 3, 1] 1, Ready 1 3 0, Terminate 1])"
    and s: "nqueens (\<lambda>_. 0) 4 [] = Some (Ret ([1, 3, 0, 2, 2, 0, 3, 1], []))"
    using t by simp_all
  from o have "\<exists>wd. master_main ?z 1 4 4 = Some (Ret ([], wd))"
    by (rule outcome_returned)
  then show ?thesis using a s by blast
qed

text \<open>
  C7.  The master does not examine \<open>n\<close> and \<open>k\<close>: whatever they are, the first two actions
  of a run that comes to an end are the broadcasts of \<open>n\<close> and of \<open>k\<close> to the workers
  (lines 160 and 116 to 120).
\<close>

theorem master_broadcasts_unchecked:
  "master_main e W n k = Some r \<longrightarrow> announced n k (snd (state_of r))"
  using master_main_announced by blast

theorem master_broadcasts_unchecked_witness:
  "master_main \<lparr>sched = (\<lambda>_. 0), mjunk = (\<lambda>_. - 1), wjunk = (\<lambda>_ _. - 1)\<rparr> 1 1 2 \<noteq> None \<and>
   announced 1 2 (snd (state_of (the (master_main
      \<lparr>sched = (\<lambda>_. 0), mjunk = (\<lambda>_. - 1), wjunk = (\<lambda>_ _. - 1)\<rparr> 1 1 2))))"
proof -
  have "outcome (master_main \<lparr>sched = (\<lambda>_. 0), mjunk = (\<lambda>_. - 1), wjunk = (\<lambda>_ _. - 1)\<rparr> 1 1 2)
      = Some (True, [], [Bcast_n 1, Bcast_k 2, Terminate 1])"
    by code_simp
  then have "master_main \<lparr>sched = (\<lambda>_. 0), mjunk = (\<lambda>_. - 1), wjunk = (\<lambda>_ _. - 1)\<rparr> 1 1 2 \<noteq> None"
    by (auto simp: outcome_def)
  then show ?thesis
    using master_broadcasts_unchecked[of "\<lparr>sched = (\<lambda>_. 0), mjunk = (\<lambda>_. - 1), wjunk = (\<lambda>_ _. - 1)\<rparr>" 1 1 2]
    by auto
qed

text \<open>
  With \<open>k > n\<close> the master broadcasts both, finds no partial solution, sends the termination
  signal and returns normally with no solution; with \<open>n = 0\<close> it broadcasts both before its
  enumeration fails.
\<close>

theorem parameters_not_rejected_counterexample:
  "outcome (master_main \<lparr>sched = (\<lambda>_. 0), mjunk = (\<lambda>_. - 1), wjunk = (\<lambda>_ _. - 1)\<rparr> 1 1 2)
     = Some (True, [], [Bcast_n 1, Bcast_k 2, Terminate 1]) \<and>
   outcome (master_main \<lparr>sched = (\<lambda>_. 0), mjunk = (\<lambda>_. - 1), wjunk = (\<lambda>_ _. - 1)\<rparr> 1 0 0)
     = Some (False, [], [Bcast_n 0, Bcast_k 0])"
  by code_simp

text \<open>
  C8.  \<open>replay\<close> reads the trace of a run and checks at every step that the count is one more
  after a dispatch to a worker that owes no report, one less and not below zero after the
  report (with or without solutions) of a worker that owes one, unchanged by an initial
  readiness, and zero when a termination signal is sent.  Every run of the master, for any
  \<open>n\<close> and \<open>k\<close>, passes the check as far as it goes; when the master returns the count is 0
  and the termination signal has been sent once to each of the ranks \<open>1, \<dots>, W\<close>; within the
  contract of C2 the master does return.
\<close>

theorem liveness_count_discipline:
  assumes W: "W < 2147483648"
  shows "(\<forall>x. master_main e W n k = Some x \<longrightarrow>
        (\<exists>c busy. replay (trace (snd (state_of x))) (0, \<lambda>_. False) = Some (c, busy) \<and> 0 \<le> c)) \<and>
     (\<forall>r wd. master_main e W n k = Some (Ret (r, wd)) \<longrightarrow>
        active_workers wd = 0 \<and> (\<exists>busy. replay (trace wd) (0, \<lambda>_. False) = Some (0, busy)) \<and>
        terms (trace wd) = [1..<Suc W]) \<and>
     (1 \<le> W \<and> 0 < k \<and> k < n \<and> n < 2147483648 \<and> halts (mjunk e) 0 n \<and>
        (\<forall>u. halts (wjunk e u) k n) \<longrightarrow>
        (\<exists>r wd. master_main e W n k = Some (Ret (r, wd))))"
proof (intro conjI allI impI)
  fix x assume "master_main e W n k = Some x"
  then show "\<exists>c busy. replay (trace (snd (state_of x))) (0, \<lambda>_. False) = Some (c, busy) \<and> 0 \<le> c"
    using W by (rule master_main_replay)
next
  fix r wd assume m: "master_main e W n k = Some (Ret (r, wd))"
  from master_main_disciplined[OF m W]
  show "active_workers wd = 0" "\<exists>busy. replay (trace wd) (0, \<lambda>_. False) = Some (0, busy)"
    "terms (trace wd) = [1..<Suc W]" by blast+
next
  assume a: "1 \<le> W \<and> 0 < k \<and> k < n \<and> n < 2147483648 \<and> halts (mjunk e) 0 n \<and>
        (\<forall>u. halts (wjunk e u) k n)"
  then show "\<exists>r wd. master_main e W n k = Some (Ret (r, wd))"
    using master_main_result[of W k n e] W by blast
qed

theorem liveness_count_discipline_witness:
  "\<exists>r wd.
     master_main \<lparr>sched = (\<lambda>t. 3 * t + 1), mjunk = (\<lambda>_. - 1), wjunk = (\<lambda>_ _. - 1)\<rparr> 2 4 1
       = Some (Ret (r, wd)) \<and> active_workers wd = 0 \<and>
     (\<exists>busy. replay (trace wd) (0, \<lambda>_. False) = Some (0, busy)) \<and>
     terms (trace wd) = [1..<Suc 2]"
proof -
  let ?e = "\<lparr>sched = (\<lambda>t. 3 * t + 1), mjunk = (\<lambda>_. - 1), wjunk = (\<lambda>_ _. - 1)\<rparr>"
  note t = liveness_count_discipline[of 2 ?e 4 1]
  have "\<exists>r wd. master_main ?e 2 4 1 = Some (Ret (r, wd))"
    using t by (simp add: halts_def)
  then obtain r wd where m: "master_main ?e 2 4 1 = Some (Ret (r, wd))" by blast
  then have "active_workers wd = 0 \<and> (\<exists>busy. replay (trace wd) (0, \<lambda>_. False) = Some (0, busy)) \<and>
     terms (trace wd) = [1..<Suc 2]"
    using t by simp
  then show ?thesis using m by blast
qed

text \<open>
  C9.  The termination signal is observable at a worker when the test of its \<^verbatim>\<open>while\<close> reads
  something else than \<open>working\<close> from \<^verbatim>\<open>keep_working\<close>.  Let the tests of the iterations \<open>pre\<close>
  read \<open>working\<close> and the next test, \<open>q\<close>, not.  If the iterations \<open>pre\<close> come to an end, the
  loop is left at \<open>q\<close>: the request for work is freed, the partial solutions worked on are
  those that arrived during \<open>pre\<close> and each has been answered, and neither the partial solution
  that may have arrived by \<open>q\<close> nor anything after it is looked at.  If the worker is held
  inside an enumeration of \<open>pre\<close> it never reads the signal; and as long as the tests read
  \<open>working\<close> the loop is not left.
\<close>

theorem worker_stops_at_termination:
  assumes "\<forall>p \<in> set pre. keep_working p = working" and "keep_working q \<noteq> working"
  shows "(case worker_main wj n k pre of
            Polling w \<Rightarrow>
              worker_main wj n k (pre @ q # rest) = Exited (w\<lparr>work_request := Freed\<rparr>) \<and>
              wp_units w = List.map_filter arrived pre \<and>
              length (wp_sent w) = Suc (length (wp_units w))
          | Blocked \<Rightarrow> worker_main wj n k (pre @ q # rest) = Blocked
          | Crashed w \<Rightarrow> worker_main wj n k (pre @ q # rest) = Crashed w
          | Exited w \<Rightarrow> False)"
proof -
  let ?w0 = "\<lparr>wp_pos = replicate n 0, wp_sols = [], wp_sent = [(initial_ready, [])], wp_units = [],
        work_request = Posted\<rparr>"
  have a: "worker_loop wj n k (pre @ q # rest) ?w0 =
     (case worker_loop wj n k pre ?w0 of Polling w' \<Rightarrow> worker_loop wj n k (q # rest) w' | r \<Rightarrow> r)"
    using assms(1) by (rule worker_loop_append)
  show ?thesis
  proof (cases "worker_loop wj n k pre ?w0")
    case (Polling w)
    from worker_loop_units[OF assms(1) Polling]
    show ?thesis using a Polling assms(2) by (simp add: worker_main_def)
  next
    case Blocked
    then show ?thesis using a by (simp add: worker_main_def)
  next
    case (Crashed w)
    then show ?thesis using a by (simp add: worker_main_def)
  next
    case (Exited w)
    then show ?thesis using worker_loop_working[OF assms(1)] by blast
  qed
qed

theorem worker_stops_at_termination_witness:
  "worker_main (\<lambda>_ _. - 1) 4 1
     ([\<lparr>keep_working = working, arrived = None\<rparr>, \<lparr>keep_working = working, arrived = Some [1]\<rparr>]
      @ \<lparr>keep_working = terminate, arrived = Some [3]\<rparr>
      # [\<lparr>keep_working = working, arrived = Some [0]\<rparr>])
   = Exited \<lparr>wp_pos = [1, 0, 0, 0], wp_sols = [], wp_sent = [(1, []), (2, [1, 3, 0, 2])],
        wp_units = [[1]], work_request = Freed\<rparr>"
proof -
  let ?pre = "[\<lparr>keep_working = working, arrived = None\<rparr>, \<lparr>keep_working = working, arrived = Some [1]\<rparr>]"
  let ?q = "\<lparr>keep_working = terminate, arrived = Some [3]\<rparr>"
  have h1: "\<forall>p \<in> set ?pre. keep_working p = working" by simp
  have h2: "keep_working ?q \<noteq> working" by (simp add: working_def terminate_def)
  from worker_stops_at_termination[OF h1 h2, of "\<lambda>_ _. - 1" 4 1 "[\<lparr>keep_working = working, arrived = Some [0]\<rparr>]"]
  show ?thesis unfolding worker_run_example by simp
qed

end
